theory Spec2Isabelle
  imports Complex_Main "HOL-Library.Sublist"
begin

section \<open>Strings\<close>

text \<open>
  A Python string is modelled as a list of \<^typ>\<open>char\<close>, each character standing for the
  code point of the same number (0 to 255). The string methods the program uses are
  written out for that range.
\<close>

datatype error = IndexError | ValueError

definition isspace :: "char \<Rightarrow> bool" where
  \<comment> \<open>\<^verbatim>\<open>str.isspace\<close> on one character: tab, LF, VT, FF, CR, the separators
      0x1c-0x1f, space, NEL (0x85) and the no-break space (0xa0).\<close>
  "isspace c = (of_char c \<in> {9, 10, 11, 12, 13, 28, 29, 30, 31, 32, 133, 160 :: nat})"

definition lower_char :: "char \<Rightarrow> char" where
  \<comment> \<open>\<^verbatim>\<open>str.lower\<close> on one character: A-Z, and 0xc0-0xde without the
      multiplication sign 0xd7, move up by 32.\<close>
  "lower_char c =
     (let n = (of_char c :: nat)
      in if (65 \<le> n \<and> n \<le> 90) \<or> (192 \<le> n \<and> n \<le> 222 \<and> n \<noteq> 215) then char_of (n + 32) else c)"

definition lower :: "string \<Rightarrow> string" where
  "lower s = map lower_char s"

definition startswith :: "string \<Rightarrow> string \<Rightarrow> bool" where
  "startswith s p = prefix p s"

definition endswith_space :: "string \<Rightarrow> bool" where
  \<comment> \<open>\<^verbatim>\<open>s.endswith(' ')\<close>\<close>
  "endswith_space s = (s \<noteq> [] \<and> last s = CHR '' '')"

definition slice_to :: "int \<Rightarrow> 'a list \<Rightarrow> 'a list" where
  \<comment> \<open>\<^verbatim>\<open>xs[:i]\<close>: a negative bound counts from the end.\<close>
  "slice_to i xs = (if i < 0 then take (nat (int (length xs) + i)) xs else take (nat i) xs)"

definition slice_from :: "int \<Rightarrow> 'a list \<Rightarrow> 'a list" where
  \<comment> \<open>\<^verbatim>\<open>xs[i:]\<close>: a negative bound counts from the end.\<close>
  "slice_from i xs = (if i < 0 then drop (nat (int (length xs) + i)) xs else drop (nat i) xs)"

definition slice :: "nat \<Rightarrow> nat \<Rightarrow> 'a list \<Rightarrow> 'a list" where
  \<comment> \<open>\<^verbatim>\<open>xs[i:j]\<close> for bounds that are not negative.\<close>
  "slice i j xs = drop i (take j xs)"

definition index :: "'a list \<Rightarrow> nat \<Rightarrow> error + 'a" where
  \<comment> \<open>\<^verbatim>\<open>xs[i]\<close> for an index that is not negative; out of range raises.\<close>
  "index xs i = (if i < length xs then Inr (xs ! i) else Inl IndexError)"

fun join :: "string \<Rightarrow> string list \<Rightarrow> string" where
  "join sep [] = []"
| "join sep [x] = x"
| "join sep (x # y # ys) = x @ sep @ join sep (y # ys)"

section \<open>Tokenizer (core/utils.py)\<close>

text \<open>
  The loop of \<^verbatim>\<open>tokenize_command_line\<close> over the characters of the line, with its four
  variables \<^verbatim>\<open>tokens\<close>, \<^verbatim>\<open>current_token\<close>, \<^verbatim>\<open>in_quotes\<close> and \<^verbatim>\<open>quote_char\<close>;
  the last equation is the flush after the loop.
\<close>

fun tokenize_loop :: "string \<Rightarrow> string list \<Rightarrow> string \<Rightarrow> bool \<Rightarrow> char option \<Rightarrow> string list" where
  "tokenize_loop [] tokens current_token in_quotes quote_char =
     (if current_token \<noteq> [] then tokens @ [current_token] else tokens)"
| "tokenize_loop (c # cs) tokens current_token in_quotes quote_char =
     (if c = CHR 0x22 \<or> c = CHR 0x27 then
        (if \<not> in_quotes then tokenize_loop cs tokens current_token True (Some c)
         else if Some c = quote_char then tokenize_loop cs tokens current_token False None
         else tokenize_loop cs tokens (current_token @ [c]) in_quotes quote_char)
      else if isspace c \<and> \<not> in_quotes then
        (if current_token \<noteq> [] then tokenize_loop cs (tokens @ [current_token]) [] in_quotes quote_char
         else tokenize_loop cs tokens current_token in_quotes quote_char)
      else tokenize_loop cs tokens (current_token @ [c]) in_quotes quote_char)"

definition tokenize_command_line :: "string \<Rightarrow> string list" where
  "tokenize_command_line line = (if line = [] then [] else tokenize_loop line [] [] False None)"

section \<open>Context extraction (core/utils.py)\<close>

record command_context =
  command :: "string option"
  subcommand :: "string option"
  args :: "string list"
  current_word :: string
  word_start :: nat
  word_end :: nat
  tokens :: "string list option"

text \<open>
  \<^verbatim>\<open>for i in range(cursor_pos - 1, -1, -1)\<close>: the first argument counts the indices still
  to visit, so the index visited is one below it. Reading \<^verbatim>\<open>line[i]\<close> past the end
  raises.
\<close>

fun word_start_loop :: "string \<Rightarrow> nat \<Rightarrow> nat \<Rightarrow> error + nat" where
  "word_start_loop line 0 ws = Inr ws"
| "word_start_loop line (Suc i) ws =
     (case index line i of
        Inl e \<Rightarrow> Inl e
      | Inr c \<Rightarrow> if isspace c then Inr (i + 1) else word_start_loop line i i)"

text \<open>\<^verbatim>\<open>for i in range(cursor_pos, len(line))\<close>\<close>

function word_end_loop :: "string \<Rightarrow> nat \<Rightarrow> nat \<Rightarrow> error + nat" where
  "word_end_loop line i we =
     (if i < length line then
        (case index line i of
           Inl e \<Rightarrow> Inl e
         | Inr c \<Rightarrow> if isspace c then Inr i else word_end_loop line (i + 1) (i + 1))
      else Inr we)"
  by pat_completeness auto
termination
  by (relation "measure (\<lambda>(line, i, we). length line - i)") auto

definition extract_command_context :: "string \<Rightarrow> int \<Rightarrow> error + command_context" where
  "extract_command_context line cursor_pos =
     (if line = [] \<or> cursor_pos < 0 then
        Inr \<lparr>command = None, subcommand = None, args = [], current_word = [],
             word_start = 0, word_end = 0, tokens = None\<rparr>
      else
        let partial_line = slice_to cursor_pos line;
            toks = tokenize_command_line partial_line;
            cursor = nat cursor_pos
        in case word_start_loop line cursor cursor of
             Inl e \<Rightarrow> Inl e
           | Inr ws \<Rightarrow>
               (case word_end_loop line cursor cursor of
                  Inl e \<Rightarrow> Inl e
                | Inr we \<Rightarrow>
                    (let cw = slice ws we line
                     in case (if cursor = length line \<and> cw \<noteq> [] \<and> \<not> endswith_space cw then
                                (if cursor > 0 then
                                   (case index line (cursor - 1) of
                                      Inl e \<Rightarrow> Inl e
                                    | Inr c \<Rightarrow> Inr (if \<not> isspace c then [] else cw))
                                 else Inr cw)
                              else Inr cw) of
                          Inl e \<Rightarrow> Inl e
                        | Inr cw' \<Rightarrow>
                            Inr \<lparr>command = (if toks \<noteq> [] then Some (toks ! 0) else None),
                                 subcommand = (if length toks > 1 then Some (toks ! 1) else None),
                                 args = (if length toks > 2 then slice_from 2 toks else []),
                                 current_word = cw',
                                 word_start = ws, word_end = we, tokens = Some toks\<rparr>)))"

section \<open>Filtering, ranking and cache keys (core/utils.py)\<close>

definition filter_suggestions :: "string list \<Rightarrow> string \<Rightarrow> string list" where
  "filter_suggestions suggestions cw =
     (if cw = [] then suggestions
      else filter (\<lambda>suggestion. startswith (lower suggestion) (lower cw)) suggestions)"

text \<open>
  The three buckets of \<^verbatim>\<open>rank_suggestions\<close>, each filled in the order of the input;
  the function reads only \<^verbatim>\<open>current_word\<close> of the context.
\<close>

definition rank_suggestions :: "string list \<Rightarrow> command_context \<Rightarrow> string list" where
  "rank_suggestions suggestions ctx =
     (if suggestions = [] then []
      else
        let cw = lower (current_word ctx);
            exact_matches = filter (\<lambda>s. lower s = cw) suggestions;
            prefix_matches = filter (\<lambda>s. lower s \<noteq> cw \<and> startswith (lower s) cw) suggestions;
            other_matches = filter (\<lambda>s. lower s \<noteq> cw \<and> \<not> startswith (lower s) cw) suggestions
        in exact_matches @ prefix_matches @ other_matches)"

definition or_empty :: "string option \<Rightarrow> string" where
  \<comment> \<open>\<^verbatim>\<open>x or ''\<close>\<close>
  "or_empty x = (case x of None \<Rightarrow> [] | Some s \<Rightarrow> s)"

definition create_cache_key :: "command_context \<Rightarrow> string" where
  "create_cache_key ctx = join ''|'' ([or_empty (command ctx), or_empty (subcommand ctx)] @ args ctx)"

section \<open>Dictionaries\<close>

text \<open>
  A Python dictionary keeps its keys in insertion order, and the eviction below sorts its
  items, so it is an association list. Assigning to a key that is present replaces the
  value where it stands; a new key goes to the end.
\<close>

type_synonym ('k, 'v) dict = "('k \<times> 'v) list"

fun dict_set :: "'k \<Rightarrow> 'v \<Rightarrow> ('k, 'v) dict \<Rightarrow> ('k, 'v) dict" where
  "dict_set k v [] = [(k, v)]"
| "dict_set k v (p # ps) = (if fst p = k then (k, v) # ps else p # dict_set k v ps)"

definition dict_get :: "('k, 'v) dict \<Rightarrow> 'k \<Rightarrow> 'v option" where
  "dict_get d k = map_of d k"

definition dict_del :: "'k \<Rightarrow> ('k, 'v) dict \<Rightarrow> ('k, 'v) dict" where
  "dict_del k d = filter (\<lambda>p. fst p \<noteq> k) d"

definition keys :: "('k, 'v) dict \<Rightarrow> 'k list" where
  "keys d = map fst d"

section \<open>Cache manager (core/cache_manager.py)\<close>

text \<open>
  A cache entry is a dictionary with five keys. The manager reads every one of them with
  a default, since an entry loaded from the cache file may lack any: a field is
  \<^term>\<open>None\<close> when its key is missing. Timestamps and the time-to-live are seconds.
\<close>

record entry =
  suggestions :: "string list option"
  created :: "real option"
  last_used :: "real option"
  hit_count :: "int option"
  ttl :: "real option"

text \<open>
  The cache file: its content (\<^term>\<open>None\<close> when the file is missing or is not JSON)
  and whether it can be opened for writing.
\<close>

record store =
  content :: "(string, entry) dict option"
  writable :: bool

record CacheManager =
  max_size :: int
  cache :: "(string, entry) dict"

definition CacheManager_load_cache :: "store \<Rightarrow> CacheManager \<Rightarrow> CacheManager" where
  "CacheManager_load_cache f m = (case content f of Some d \<Rightarrow> m\<lparr>cache := d\<rparr> | None \<Rightarrow> m\<lparr>cache := []\<rparr>)"

definition CacheManager_init :: "int \<Rightarrow> store \<Rightarrow> CacheManager" where
  "CacheManager_init n f = CacheManager_load_cache f \<lparr>max_size = n, cache = []\<rparr>"

definition CacheManager_save_cache :: "CacheManager \<Rightarrow> store \<Rightarrow> store" where
  \<comment> \<open>An \<^verbatim>\<open>IOError\<close> on opening the file is swallowed and leaves the file as it was.\<close>
  "CacheManager_save_cache m f = (if writable f then f\<lparr>content := Some (cache m)\<rparr> else f)"

definition last_used_key :: "string \<times> entry \<Rightarrow> real" where
  \<comment> \<open>\<^verbatim>\<open>lambda x: x[1].get('last_used', 0)\<close>\<close>
  "last_used_key x = (case last_used (snd x) of None \<Rightarrow> 0 | Some t \<Rightarrow> t)"

definition CacheManager_cleanup_cache :: "CacheManager \<Rightarrow> CacheManager" where
  \<comment> \<open>\<^verbatim>\<open>sorted\<close> is stable, as \<^const>\<open>sort_key\<close> is; the slice is
      \<^verbatim>\<open>sorted_items[-self.max_size:]\<close>.\<close>
  "CacheManager_cleanup_cache m =
     (if int (length (cache m)) > max_size m then
        m\<lparr>cache := slice_from (- max_size m) (sort_key last_used_key (cache m))\<rparr>
      else m)"

definition CacheManager_get :: "CacheManager \<Rightarrow> string \<Rightarrow> real \<Rightarrow> string list option \<times> CacheManager" where
  \<comment> \<open>The third argument is the reading of \<^verbatim>\<open>time.time()\<close>.\<close>
  "CacheManager_get m key now =
     (case dict_get (cache m) key of
        Some e \<Rightarrow>
          (let e' = e\<lparr>last_used := Some now,
                      hit_count := Some ((case hit_count e of None \<Rightarrow> 0 | Some n \<Rightarrow> n) + 1)\<rparr>
           in (Some (case suggestions e' of None \<Rightarrow> [] | Some s \<Rightarrow> s),
               m\<lparr>cache := dict_set key e' (cache m)\<rparr>))
      | None \<Rightarrow> (None, m))"

definition CacheManager_set ::
  "CacheManager \<Rightarrow> store \<Rightarrow> string \<Rightarrow> string list \<Rightarrow> real \<Rightarrow> real \<Rightarrow> real \<Rightarrow> CacheManager \<times> store" where
  \<comment> \<open>The last two arguments are the two readings of \<^verbatim>\<open>time.time()\<close>.\<close>
  "CacheManager_set m f key suggs ttl_secs t_created t_used =
     (let m1 = m\<lparr>cache := dict_set key
                   \<lparr>suggestions = Some suggs, created = Some t_created, last_used = Some t_used,
                    hit_count = Some 0, ttl = Some ttl_secs\<rparr> (cache m)\<rparr>;
          m2 = CacheManager_cleanup_cache m1
      in (m2, CacheManager_save_cache m2 f))"

definition CacheManager_invalidate :: "CacheManager \<Rightarrow> store \<Rightarrow> string \<Rightarrow> CacheManager \<times> store" where
  "CacheManager_invalidate m f key =
     (if key \<in> set (keys (cache m)) then
        (let m1 = m\<lparr>cache := dict_del key (cache m)\<rparr> in (m1, CacheManager_save_cache m1 f))
      else (m, f))"

definition CacheManager_clear :: "CacheManager \<Rightarrow> store \<Rightarrow> CacheManager \<times> store" where
  "CacheManager_clear m f = (let m1 = m\<lparr>cache := []\<rparr> in (m1, CacheManager_save_cache m1 f))"

definition expired :: "real \<Rightarrow> entry \<Rightarrow> bool" where
  \<comment> \<open>The test of \<^verbatim>\<open>cleanup_expired\<close>: \<^verbatim>\<open>current_time - created > ttl\<close>, with the
      defaults 0 and 3600.\<close>
  "expired current_time e =
     (current_time - (case created e of None \<Rightarrow> 0 | Some t \<Rightarrow> t)
        > (case ttl e of None \<Rightarrow> 3600 | Some t \<Rightarrow> t))"

definition CacheManager_cleanup_expired :: "CacheManager \<Rightarrow> store \<Rightarrow> real \<Rightarrow> CacheManager \<times> store" where
  "CacheManager_cleanup_expired m f current_time =
     (let expired_keys = map fst (filter (\<lambda>(key, e). expired current_time e) (cache m));
          m1 = m\<lparr>cache := fold dict_del expired_keys (cache m)\<rparr>
      in if expired_keys \<noteq> [] then (m1, CacheManager_save_cache m1 f) else (m1, f))"

section \<open>Knowledge base and prediction (core/predictor.py)\<close>

text \<open>
  An entry of \<^verbatim>\<open>COMMANDS\<close>: its list of subcommands and its dictionary from a subcommand
  (or the empty string) to a list of flags. The table is a module-level dictionary whose
  lists the prediction code extends in place, so the table is part of the state.
\<close>

record cmd_data =
  subcommands :: "string list"
  flags :: "(string, string list) dict"

type_synonym kb = "(string, cmd_data) dict"

definition COMMANDS :: kb where
  "COMMANDS =
   [
    (''git'',
     \<lparr>subcommands = [''add'', ''commit'', ''push'', ''pull'', ''status'', ''checkout'', ''branch'', ''merge'', ''log'', ''diff''],
      flags =
        [(''add'', [''-A'', ''--all'', ''-p'', ''--patch'', ''-u'', ''--update'']),
         (''commit'', [''-m'', ''--message'', ''--amend'', ''--signoff'', ''-a'', ''--all'']),
         (''push'', [''-u'', ''--set-upstream'', ''--force'', ''-f'', ''--delete'']),
         (''pull'', [''--rebase'', ''--ff-only'', ''--no-ff'']),
         (''status'', [''-s'', ''--short'', ''-b'', ''--branch'', ''--porcelain'']),
         (''checkout'', [''-b'', ''--branch'', ''-f'', ''--force'', ''--track'']),
         (''branch'', [''-d'', ''--delete'', ''-m'', ''--move'', ''-r'', ''--remote'']),
         (''log'', [''--oneline'', ''--graph'', ''--decorate'', ''-n'', ''--max-count'']),
         (''diff'', [''--cached'', ''--staged'', ''-w'', ''--ignore-all-space''])]\<rparr>),
    (''docker'',
     \<lparr>subcommands = [''run'', ''build'', ''pull'', ''push'', ''exec'', ''ps'', ''images'', ''logs'', ''stop'', ''rm''],
      flags =
        [(''run'', [''-d'', ''--detach'', ''--rm'', ''-it'', ''--interactive'', ''--tty'', ''-p'', ''--publish'']),
         (''build'', [''-t'', ''--tag'', ''-f'', ''--file'', ''--no-cache'', ''--pull'']),
         (''pull'', [''-a'', ''--all-tags'', ''--platform'']),
         (''push'', [''-a'', ''--all-tags'']),
         (''exec'', [''-it'', ''--interactive'', ''--tty'', ''-u'', ''--user'']),
         (''ps'', [''-a'', ''--all'', ''-q'', ''--quiet'', ''--format'']),
         (''images'', [''-a'', ''--all'', ''-q'', ''--quiet'', ''--filter'']),
         (''logs'', [''-f'', ''--follow'', ''-t'', ''--timestamps'', ''--tail'']),
         (''stop'', [''-t'', ''--time'']),
         (''rm'', [''-f'', ''--force'', ''-v'', ''--volumes''])]\<rparr>),
    (''ls'',
     \<lparr>subcommands = [],
      flags =
        [('''', [''-l'', ''--long'', ''-a'', ''--all'', ''-h'', ''--human-readable'', ''--color'', ''-R'', ''--recursive''])]\<rparr>),
    (''cd'',
     \<lparr>subcommands = [],
      flags =
        [('''', [''-'', ''-L'', ''-P''])]\<rparr>),
    (''cp'',
     \<lparr>subcommands = [],
      flags =
        [('''', [''-r'', ''--recursive'', ''-v'', ''--verbose'', ''-f'', ''--force'', ''-i'', ''--interactive''])]\<rparr>),
    (''mv'',
     \<lparr>subcommands = [],
      flags =
        [('''', [''-v'', ''--verbose'', ''-f'', ''--force'', ''-i'', ''--interactive'', ''-n'', ''--no-clobber''])]\<rparr>),
    (''rm'',
     \<lparr>subcommands = [],
      flags =
        [('''', [''-r'', ''--recursive'', ''-f'', ''--force'', ''-i'', ''--interactive'', ''-v'', ''--verbose''])]\<rparr>)
   ]"

definition flags_get :: "cmd_data \<Rightarrow> string \<Rightarrow> string list" where
  \<comment> \<open>\<^verbatim>\<open>cmd_data.get("flags", {}).get(k, [])\<close>\<close>
  "flags_get cd k = (case dict_get (flags cd) k of None \<Rightarrow> [] | Some l \<Rightarrow> l)"

text \<open>
  \<^verbatim>\<open>for matching_subcmd in suggestions: suggestions.extend(...)\<close>: the loop runs over the
  list it extends, by index, and so also visits what it appended. It need not end.
\<close>

partial_function (option) extend_matching :: "cmd_data \<Rightarrow> nat \<Rightarrow> string list \<Rightarrow> string list option" where
  "extend_matching cd i suggs =
     (if i < length suggs then extend_matching cd (i + 1) (suggs @ flags_get cd (suggs ! i))
      else Some suggs)"

declare extend_matching.simps [code]

text \<open>
  The candidate list of \<^verbatim>\<open>predict_rule_based\<close> before filtering, with the table as the
  code leaves it: where \<^verbatim>\<open>suggestions\<close> is bound to a list of the table,
  \<^verbatim>\<open>extend\<close> changes that list.
\<close>

definition candidates :: "kb \<Rightarrow> command_context \<Rightarrow> (string list \<times> kb) option" where
  "candidates tbl ctx =
     (case command ctx of
        None \<Rightarrow> Some (keys tbl, tbl)
      | Some cmd \<Rightarrow>
          (case dict_get tbl cmd of
             None \<Rightarrow> Some ([], tbl)
           | Some cd \<Rightarrow>
               (case subcommand ctx of
                  None \<Rightarrow>
                    (let s = subcommands cd @ flags_get cd []
                     in Some (s, dict_set cmd (cd\<lparr>subcommands := s\<rparr>) tbl))
                | Some subcmd \<Rightarrow>
                    (let matching_subcommands = filter (\<lambda>s. startswith s subcmd) (subcommands cd)
                     in if matching_subcommands \<noteq> [] then
                          (case extend_matching cd 0 matching_subcommands of
                             None \<Rightarrow> None
                           | Some s \<Rightarrow> Some (s @ flags_get cd [], tbl))
                        else
                          (case dict_get (flags cd) subcmd of
                             None \<Rightarrow> Some ([] @ flags_get cd [], tbl)
                           | Some l \<Rightarrow>
                               (let s = l @ flags_get cd []
                                in Some (s, dict_set cmd (cd\<lparr>flags := dict_set subcmd s (flags cd)\<rparr>) tbl)))))))"

text \<open>
  The state of the process: the table, the global \<^verbatim>\<open>_cache_manager\<close> (created on first
  use, with the default maximum of 1000 entries) and the cache file.
\<close>

record world =
  commands :: kb
  cache_manager :: "CacheManager option"
  cache_file :: store

definition get_cache_manager :: "world \<Rightarrow> CacheManager \<times> world" where
  "get_cache_manager w =
     (case cache_manager w of
        Some m \<Rightarrow> (m, w)
      | None \<Rightarrow> (let m = CacheManager_init 1000 (cache_file w) in (m, w\<lparr>cache_manager := Some m\<rparr>)))"

definition cache_suggestions :: "world \<Rightarrow> string \<Rightarrow> string list \<Rightarrow> real \<Rightarrow> real \<Rightarrow> real \<Rightarrow> world" where
  "cache_suggestions w key suggs ttl_secs t_created t_used =
     (let (m, w1) = get_cache_manager w;
          (m', f') = CacheManager_set m (cache_file w1) key suggs ttl_secs t_created t_used
      in w1\<lparr>cache_manager := Some m', cache_file := f'\<rparr>)"

definition get_cached_suggestions :: "world \<Rightarrow> string \<Rightarrow> real \<Rightarrow> string list option \<times> world" where
  "get_cached_suggestions w key now =
     (let (m, w1) = get_cache_manager w;
          (r, m') = CacheManager_get m key now
      in (r, w1\<lparr>cache_manager := Some m'\<rparr>))"

text \<open>
  \<^verbatim>\<open>predict_rule_based\<close>, with the three readings of the clock it makes (one in
  \<^verbatim>\<open>get\<close>, two in \<^verbatim>\<open>set\<close>). The result is \<^term>\<open>None\<close> when the loop above does not
  end.
\<close>

definition predict_rule_based ::
  "world \<Rightarrow> command_context \<Rightarrow> real \<Rightarrow> real \<Rightarrow> real \<Rightarrow> (string list \<times> world) option" where
  "predict_rule_based w ctx t_get t_created t_used =
     (let cache_key = create_cache_key ctx;
          (cached_suggestions, w1) = get_cached_suggestions w cache_key t_get
      in case cached_suggestions of
           Some s \<Rightarrow> Some (s, w1)
         | None \<Rightarrow>
             (case candidates (commands w1) ctx of
                None \<Rightarrow> None
              | Some (s, tbl) \<Rightarrow>
                  (let s1 = (if current_word ctx \<noteq> [] then filter_suggestions s (current_word ctx) else s);
                       s2 = rank_suggestions s1 ctx
                   in Some (s2, cache_suggestions (w1\<lparr>commands := tbl\<rparr>) cache_key s2 3600 t_created t_used))))"

definition predict_with_context ::
  "world \<Rightarrow> string \<Rightarrow> int \<Rightarrow> real \<Rightarrow> real \<Rightarrow> real \<Rightarrow> (error + string list \<times> world) option" where
  "predict_with_context w cli_line cursor_pos t_get t_created t_used =
     (case extract_command_context cli_line cursor_pos of
        Inl e \<Rightarrow> Some (Inl e)
      | Inr ctx \<Rightarrow> map_option Inr (predict_rule_based w ctx t_get t_created t_used))"

section \<open>The shlex path (core/context_parser.py)\<close>

text \<open>
  \<^verbatim>\<open>shlex.split\<close> of the Python standard library, as \<^verbatim>\<open>parse_context\<close> calls it: POSIX
  mode, \<^verbatim>\<open>whitespace_split\<close> on, no comment characters, no punctuation characters. Its
  lexer is a state machine over the characters: between tokens, inside a word, inside a
  quoted run (with the quote that opened it), or after a backslash (with the state to
  return to). White space is space, tab, CR and LF; a backslash escapes outside quotes
  and inside double quotes; only double quotes allow escapes. The end of input inside a
  quoted run or after a backslash raises \<^verbatim>\<open>ValueError\<close>.
\<close>

datatype lex_state = Between | InWord | InQuote char | AfterEscape lex_state

definition shlex_whitespace :: "char \<Rightarrow> bool" where
  "shlex_whitespace c = (c = CHR '' '' \<or> c = CHR 0x09 \<or> c = CHR 0x0D \<or> c = CHR 0x0A)"

definition shlex_quote :: "char \<Rightarrow> bool" where
  "shlex_quote c = (c = CHR 0x27 \<or> c = CHR 0x22)"

definition shlex_escape :: "char \<Rightarrow> bool" where
  "shlex_escape c = (c = CHR 0x5C)"

fun shlex_loop :: "lex_state \<Rightarrow> string \<Rightarrow> bool \<Rightarrow> string list \<Rightarrow> string \<Rightarrow> error + string list" where
  "shlex_loop Between token quoted acc [] = Inr acc"
| "shlex_loop InWord token quoted acc [] =
     (if token = [] \<and> \<not> quoted then Inr acc else Inr (acc @ [token]))"
| "shlex_loop (InQuote q) token quoted acc [] = Inl ValueError"
| "shlex_loop (AfterEscape st) token quoted acc [] = Inl ValueError"
| "shlex_loop Between token quoted acc (c # cs) =
     (if shlex_whitespace c then
        (if token \<noteq> [] \<or> quoted then shlex_loop Between [] False (acc @ [token]) cs
         else shlex_loop Between token quoted acc cs)
      else if shlex_escape c then shlex_loop (AfterEscape InWord) token quoted acc cs
      else if shlex_quote c then shlex_loop (InQuote c) token quoted acc cs
      else shlex_loop InWord [c] quoted acc cs)"
| "shlex_loop (InQuote q) token quoted acc (c # cs) =
     (if c = q then shlex_loop InWord token True acc cs
      else if shlex_escape c \<and> q = CHR 0x22 then shlex_loop (AfterEscape (InQuote q)) token True acc cs
      else shlex_loop (InQuote q) (token @ [c]) True acc cs)"
| "shlex_loop (AfterEscape st) token quoted acc (c # cs) =
     (let token1 = (case st of
                      InQuote q \<Rightarrow> if c \<noteq> CHR 0x5C \<and> c \<noteq> q then token @ [CHR 0x5C] else token
                    | _ \<Rightarrow> token)
      in shlex_loop st (token1 @ [c]) quoted acc cs)"
| "shlex_loop InWord token quoted acc (c # cs) =
     (if shlex_whitespace c then
        (if token \<noteq> [] \<or> quoted then shlex_loop Between [] False (acc @ [token]) cs
         else shlex_loop Between token quoted acc cs)
      else if shlex_quote c then shlex_loop (InQuote c) token quoted acc cs
      else if shlex_escape c then shlex_loop (AfterEscape InWord) token quoted acc cs
      else shlex_loop InWord (token @ [c]) quoted acc cs)"

definition shlex_split :: "string \<Rightarrow> error + string list" where
  "shlex_split s = shlex_loop Between [] False [] s"

text \<open>\<^verbatim>\<open>str.strip()\<close> and \<^verbatim>\<open>str.split()\<close> without arguments: both work on white space
  in the sense of \<^const>\<open>isspace\<close>.\<close>

definition strip :: "string \<Rightarrow> string" where
  "strip s = rev (dropWhile isspace (rev (dropWhile isspace s)))"

fun split_loop :: "string \<Rightarrow> string list \<Rightarrow> string \<Rightarrow> string list" where
  "split_loop [] acc word = (if word \<noteq> [] then acc @ [word] else acc)"
| "split_loop (c # cs) acc word =
     (if isspace c then (if word \<noteq> [] then split_loop cs (acc @ [word]) [] else split_loop cs acc word)
      else split_loop cs acc (word @ [c]))"

definition split :: "string \<Rightarrow> string list" where
  "split s = split_loop s [] []"

record parsed_context =
  p_command :: "string option"
  p_subcommand :: "string option"
  p_args :: "string list"

definition parse_context :: "string \<Rightarrow> int \<Rightarrow> parsed_context" where
  "parse_context cli_line cursor_pos =
     (let partial_line = slice_to cursor_pos cli_line;
          toks = (case shlex_split partial_line of
                    Inr ts \<Rightarrow> ts
                  | Inl e \<Rightarrow> split (strip partial_line))
      in if toks = [] then \<lparr>p_command = None, p_subcommand = None, p_args = []\<rparr>
         else \<lparr>p_command = Some (toks ! 0),
               p_subcommand = (if length toks > 1 then Some (toks ! 1) else None),
               p_args = (if length toks > 2 then slice_from 2 toks else [])\<rparr>)"

section \<open>Observations and example states\<close>

definition cached_list :: "world \<Rightarrow> string \<Rightarrow> string list option" where
  \<comment> \<open>The suggestion list the cache of a world holds under a key.\<close>
  "cached_list w key =
     (case cache_manager w of
        None \<Rightarrow> None
      | Some m \<Rightarrow> (case dict_get (cache m) key of None \<Rightarrow> None | Some e \<Rightarrow> suggestions e))"

definition initial_world :: world where
  \<comment> \<open>A fresh process: the table as written, no manager yet, no cache file.\<close>
  "initial_world =
     \<lparr>commands = COMMANDS, cache_manager = None,
      cache_file = \<lparr>content = None, writable = True\<rparr>\<rparr>"

definition old_entry :: entry where
  \<comment> \<open>An entry created at time 0 that lives for one hour.\<close>
  "old_entry =
     \<lparr>suggestions = Some [''add''], created = Some 0, last_used = Some 0,
      hit_count = Some 0, ttl = Some 3600\<rparr>"

definition old_manager :: CacheManager where
  "old_manager = \<lparr>max_size = 1000, cache = [(''git|'', old_entry)]\<rparr>"

definition saved_world :: world where
  \<comment> \<open>The cache file holds what the manager holds.\<close>
  "saved_world =
     \<lparr>commands = COMMANDS, cache_manager = Some old_manager,
      cache_file = \<lparr>content = Some (cache old_manager), writable = True\<rparr>\<rparr>"

definition zero_manager :: CacheManager where
  \<comment> \<open>\<^verbatim>\<open>CacheManager(max_size=0)\<close> with nothing cached.\<close>
  "zero_manager = \<lparr>max_size = 0, cache = []\<rparr>"

definition no_file :: store where
  "no_file = \<lparr>content = None, writable = True\<rparr>"

definition git_subcommands :: "string list" where
  "git_subcommands =
     [''add'', ''commit'', ''push'', ''pull'', ''status'', ''checkout'', ''branch'', ''merge'',
      ''log'', ''diff'']"

definition warm_world :: world where
  \<comment> \<open>The world after the line \<^verbatim>\<open>"git "\<close> was completed at cursor 4 in a fresh process.\<close>
  "warm_world =
     \<lparr>commands = COMMANDS,
      cache_manager = Some \<lparr>max_size = 1000, cache = [(''git|'',
          \<lparr>suggestions = Some git_subcommands, created = Some 2, last_used = Some 3,
           hit_count = Some 0, ttl = Some 3600\<rparr>)]\<rparr>,
      cache_file = \<lparr>content = Some [(''git|'',
          \<lparr>suggestions = Some git_subcommands, created = Some 2, last_used = Some 3,
           hit_count = Some 0, ttl = Some 3600\<rparr>)], writable = True\<rparr>\<rparr>"

definition separator_free :: "string \<Rightarrow> bool" where
  "separator_free s = (CHR ''|'' \<notin> set s)"

definition key_safe :: "command_context \<Rightarrow> bool" where
  \<comment> \<open>No part of the key holds the separator; a command or subcommand that is present
      is not the empty string.\<close>
  "key_safe ctx =
     ((case command ctx of None \<Rightarrow> True | Some s \<Rightarrow> s \<noteq> [] \<and> separator_free s)
      \<and> (case subcommand ctx of None \<Rightarrow> True | Some s \<Rightarrow> s \<noteq> [] \<and> separator_free s)
      \<and> list_all separator_free (args ctx))"

definition git_c_context :: command_context where
  \<comment> \<open>The context of the line \<^verbatim>\<open>"git c"\<close> at cursor 4.\<close>
  "git_c_context =
     \<lparr>command = Some ''git'', subcommand = None, args = [], current_word = ''c'',
      word_start = 4, word_end = 5, tokens = Some [''git'']\<rparr>"

definition git_space_context :: command_context where
  \<comment> \<open>The context of the line \<^verbatim>\<open>"git "\<close> at cursor 4.\<close>
  "git_space_context =
     \<lparr>command = Some ''git'', subcommand = None, args = [], current_word = [],
      word_start = 4, word_end = 4, tokens = Some [''git'']\<rparr>"

definition git_comm_context :: command_context where
  \<comment> \<open>The context of the line \<^verbatim>\<open>"git comm"\<close> at cursor 8.\<close>
  "git_comm_context =
     \<lparr>command = Some ''git'', subcommand = Some ''comm'', args = [], current_word = [],
      word_start = 4, word_end = 8, tokens = Some [''git'', ''comm'']\<rparr>"

definition git_comm_suggestions :: "string list" where
  "git_comm_suggestions =
     [''commit'', ''-m'', ''--message'', ''--amend'', ''--signoff'', ''-a'', ''--all'']"

definition plain_char :: "char \<Rightarrow> bool" where
  \<comment> \<open>Not a quote, not a backslash, and white space for the tokenizer exactly when it is
      white space for shlex.\<close>
  "plain_char c = (\<not> shlex_quote c \<and> \<not> shlex_escape c \<and> isspace c = shlex_whitespace c)"

text \<open>
  When the two tokenizers read a string the same way. The scan keeps what both keep
  track of, the quote that is open (\<^term>\<open>None\<close> outside quotes), and stops at what
  they treat differently: a backslash outside quotes (an escape for shlex, a literal
  for the tokenizer), a backslash in double quotes in front of a backslash or a double
  quote (shlex drops it), white space outside quotes that shlex does not know, and a
  quote left open (shlex raises). Inside quotes everything else is literal for both.
\<close>

fun same_reading :: "char option \<Rightarrow> string \<Rightarrow> bool" where
  "same_reading None [] = True"
| "same_reading (Some q) [] = False"
| "same_reading None (c # cs) =
     (if shlex_quote c then same_reading (Some c) cs
      else if shlex_escape c then False
      else if isspace c \<and> \<not> shlex_whitespace c then False
      else same_reading None cs)"
| "same_reading (Some q) (c # cs) =
     (if c = q then same_reading None cs
      else if shlex_escape c \<and> q = CHR 0x22 then
        (case cs of
           [] \<Rightarrow> False
         | d # ds \<Rightarrow> d \<noteq> CHR 0x5C \<and> d \<noteq> CHR 0x22 \<and> same_reading (Some q) ds)
      else same_reading (Some q) cs)"

text \<open>
  The condition under which \<^verbatim>\<open>parse_context\<close> and \<^verbatim>\<open>extract_command_context\<close> see
  the same tokens: either shlex succeeds, reads the string as the tokenizer does and
  returns no empty token (the tokenizer never returns one), or shlex raises and the
  string has no quote character, so that the fallback splits on the white space the
  tokenizer splits on.
\<close>

definition agreeing :: "string \<Rightarrow> bool" where
  "agreeing s =
     (case shlex_split s of
        Inr ts \<Rightarrow> same_reading None s \<and> [] \<notin> set ts
      | Inl e \<Rightarrow> list_all (\<lambda>c. \<not> shlex_quote c) s)"

text \<open>
  Two auxiliaries for counting characters along a run of the shlex lexer: the number of
  backslashes it has read and may still put into the token, and the states the lexer can
  be in (between tokens the token is empty, a quoted run was opened by a quote, and a
  backslash is followed from inside a word or a quoted run only).
\<close>

fun pending :: "lex_state \<Rightarrow> nat" where
  "pending (AfterEscape st) = Suc (pending st)"
| "pending st = 0"

fun reachable :: "lex_state \<Rightarrow> string \<Rightarrow> bool" where
  "reachable Between tok = (tok = [])"
| "reachable InWord tok = True"
| "reachable (InQuote q) tok = shlex_quote q"
| "reachable (AfterEscape InWord) tok = True"
| "reachable (AfterEscape (InQuote q)) tok = shlex_quote q"
| "reachable (AfterEscape st) tok = False"

section \<open>Dictionary lemmas\<close>

lemma keys_dict_set: "keys (dict_set k v d) = (if k \<in> set (keys d) then keys d else keys d @ [k])"
  by (induction d) (auto simp: keys_def)

lemma dict_get_dict_set: "dict_get (dict_set k v d) k' = (if k' = k then Some v else dict_get d k')"
  by (induction d) (auto simp: dict_get_def)

lemma dict_get_Some_keys: "dict_get d k = Some v \<Longrightarrow> k \<in> set (keys d)"
  unfolding dict_get_def keys_def by (induction d) (auto split: if_splits)

lemma length_dict_set: "length (dict_set k v d) = (if k \<in> set (keys d) then length d else Suc (length d))"
  by (induction d) (auto simp: keys_def)

section \<open>Word boundaries\<close>

declare word_end_loop.simps [simp del]

lemma word_start_loop_ok:
  "n \<le> length line \<Longrightarrow> \<exists>ws. word_start_loop line n n = Inr ws \<and> ws \<le> n"
proof (induction n)
  case 0
  then show ?case by simp
next
  case (Suc n)
  then obtain ws where "word_start_loop line n n = Inr ws" "ws \<le> n" by auto
  with Suc.prems show ?case by (auto simp: index_def)
qed

lemma word_start_loop_nonspace:
  "n < length line \<Longrightarrow> \<not> isspace (line ! n) \<Longrightarrow>
   \<exists>ws. word_start_loop line (Suc n) (Suc n) = Inr ws \<and> ws \<le> n"
  using word_start_loop_ok [of n line] by (auto simp: index_def)

lemma word_end_loop_ok:
  "i \<le> length line \<Longrightarrow>
   \<exists>r. word_end_loop line i we = Inr r \<and> (i < length line \<longrightarrow> i \<le> r)
       \<and> (i = length line \<longrightarrow> r = we) \<and> r \<le> max we (length line)"
proof (induction line i we rule: word_end_loop.induct)
  case (1 line i we)
  show ?case
  proof (cases "i < length line")
    case False
    with "1.prems" show ?thesis by (subst word_end_loop.simps) simp
  next
    case True
    note lt = this
    show ?thesis
    proof (cases "isspace (line ! i)")
      case True
      with lt show ?thesis by (subst word_end_loop.simps) (simp add: index_def)
    next
      case False
      have idx: "index line i = Inr (line ! i)" using lt by (simp add: index_def)
      from "1.IH" [OF lt idx False] lt obtain r where
        r: "word_end_loop line (i + 1) (i + 1) = Inr r"
           "i + 1 < length line \<longrightarrow> i + 1 \<le> r" "i + 1 = length line \<longrightarrow> r = i + 1"
           "r \<le> max (i + 1) (length line)"
        by auto
      have eq: "word_end_loop line i we = word_end_loop line (i + 1) (i + 1)"
        using lt False idx by (subst word_end_loop.simps) simp
      from r lt show ?thesis unfolding eq by (cases "i + 1 < length line") auto
    qed
  qed
qed

lemma last_slice:
  "ws < length line \<Longrightarrow>
   slice ws (length line) line \<noteq> [] \<and> last (slice ws (length line) line) = last line"
  by (simp add: slice_def last_drop)

text \<open>
  What \<^verbatim>\<open>extract_command_context\<close> returns for a line that is not empty and a cursor
  inside it: no index is out of range, and the word under the cursor is the slice between
  the two boundaries unless the cursor is at the end of the line behind a character that
  is not white space.
\<close>

lemma extract_shape:
  fixes line :: string and cursor_pos :: int
  defines "toks \<equiv> tokenize_command_line (slice_to cursor_pos line)"
  assumes ne: "line \<noteq> []" and lo: "0 \<le> cursor_pos" and hi: "cursor_pos \<le> int (length line)"
  shows "\<exists>ws we. ws \<le> nat cursor_pos \<and> nat cursor_pos \<le> we \<and> we \<le> length line
           \<and> extract_command_context line cursor_pos =
               Inr \<lparr>command = (if toks \<noteq> [] then Some (toks ! 0) else None),
                    subcommand = (if length toks > 1 then Some (toks ! 1) else None),
                    args = (if length toks > 2 then slice_from 2 toks else []),
                    current_word =
                      (if nat cursor_pos = length line \<and> \<not> isspace (last line) then []
                       else slice ws we line),
                    word_start = ws, word_end = we, tokens = Some toks\<rparr>"
proof -
  define c where "c = nat cursor_pos"
  have c: "c \<le> length line" "int c = cursor_pos" using lo hi by (simp_all add: c_def)
  obtain ws where ws: "word_start_loop line c c = Inr ws" "ws \<le> c"
    using word_start_loop_ok [OF c(1)] by blast
  obtain we where we: "word_end_loop line c c = Inr we" "c \<le> we" "we \<le> length line"
    using word_end_loop_ok [OF c(1), of c] c(1) by (cases "c < length line") auto
  have "(if c = length line \<and> slice ws we line \<noteq> [] \<and> \<not> endswith_space (slice ws we line) then
           (if c > 0 then (case index line (c - 1) of Inl e \<Rightarrow> Inl e
                            | Inr ch \<Rightarrow> Inr (if \<not> isspace ch then [] else slice ws we line))
            else Inr (slice ws we line))
         else Inr (slice ws we line))
        = (Inr (if c = length line \<and> \<not> isspace (last line) then [] else slice ws we line)
            :: error + string)"
  proof (cases "c = length line")
    case False
    then show ?thesis by simp
  next
    case ceq: True
    have cpos: "0 < c" using ceq ne by simp
    have idx: "index line (c - 1) = Inr (last line)"
      using ceq ne by (simp add: index_def last_conv_nth)
    show ?thesis
    proof (cases "isspace (last line)")
      case True
      with idx cpos ceq show ?thesis by simp
    next
      case ns: False
      obtain n where n: "c = Suc n" using cpos by (cases c) auto
      have "line ! n = last line" using n ceq ne by (simp add: last_conv_nth)
      then have "n < length line" "\<not> isspace (line ! n)" using n ceq ns by auto
      from word_start_loop_nonspace [OF this] ws n have wslt: "ws < length line"
        using ceq by auto
      have weeq: "we = length line" using we ceq by simp
      have cw: "slice ws we line \<noteq> []" "last (slice ws we line) = last line"
        using last_slice [OF wslt] weeq by auto
      have "\<not> endswith_space (slice ws we line)"
        using cw ns by (auto simp: endswith_space_def isspace_def)
      with cw idx cpos ceq ns show ?thesis by simp
    qed
  qed
  then have "extract_command_context line cursor_pos =
               Inr \<lparr>command = (if toks \<noteq> [] then Some (toks ! 0) else None),
                    subcommand = (if length toks > 1 then Some (toks ! 1) else None),
                    args = (if length toks > 2 then slice_from 2 toks else []),
                    current_word =
                      (if c = length line \<and> \<not> isspace (last line) then [] else slice ws we line),
                    word_start = ws, word_end = we, tokens = Some toks\<rparr>"
    using ne lo ws we
    by (simp add: extract_command_context_def Let_def c_def [symmetric] toks_def)
  then show ?thesis using ws we unfolding c_def by blast
qed

text \<open>
  C5, as amended. For every line and every cursor between 0 and the length of the line,
  \<^verbatim>\<open>extract_command_context\<close> returns a context with
  \<open>word_start \<le> cursor \<le> word_end \<le> len(line)\<close>, and \<^verbatim>\<open>current_word\<close> is
  \<^verbatim>\<open>line[word_start:word_end]\<close> except when the cursor is at the end of the line and the
  last character is not white space: then \<^verbatim>\<open>current_word\<close> is the empty string.
\<close>

theorem context_word_bounds:
  assumes lo: "0 \<le> cursor_pos" and hi: "cursor_pos \<le> int (length line)"
  shows "\<exists>ctx. extract_command_context line cursor_pos = Inr ctx
           \<and> int (word_start ctx) \<le> cursor_pos \<and> cursor_pos \<le> int (word_end ctx)
           \<and> word_end ctx \<le> length line
           \<and> current_word ctx =
               (if line \<noteq> [] \<and> nat cursor_pos = length line \<and> \<not> isspace (last line) then []
                else slice (word_start ctx) (word_end ctx) line)"
proof (cases "line = []")
  case True
  with lo hi show ?thesis by (simp add: extract_command_context_def slice_def)
next
  case False
  from extract_shape [OF False lo hi] obtain ws we ctx where
    b: "ws \<le> nat cursor_pos" "nat cursor_pos \<le> we" "we \<le> length line"
    and e: "extract_command_context line cursor_pos = Inr ctx"
    and f: "word_start ctx = ws" "word_end ctx = we"
       "current_word ctx =
          (if nat cursor_pos = length line \<and> \<not> isspace (last line) then [] else slice ws we line)"
    by fastforce
  from b lo have "int ws \<le> cursor_pos" "cursor_pos \<le> int we" by linarith+
  with e f b False show ?thesis by simp
qed

theorem context_word_bounds_witness:
  "(0::int) \<le> 12 \<and> 12 \<le> int (length ''git commit -m'')
   \<and> extract_command_context ''git commit -m'' 12 =
       Inr \<lparr>command = Some ''git'', subcommand = Some ''commit'', args = [''-''],
            current_word = ''-m'', word_start = 11, word_end = 13,
            tokens = Some [''git'', ''commit'', ''-'']\<rparr>
   \<and> slice 11 13 ''git commit -m'' = ''-m''"
proof -
  have e: "extract_command_context ''git commit -m'' 12 =
       Inr \<lparr>command = Some ''git'', subcommand = Some ''commit'', args = [''-''],
            current_word = ''-m'', word_start = 11, word_end = 13,
            tokens = Some [''git'', ''commit'', ''-'']\<rparr>"
    by code_simp
  have s: "slice 11 13 ''git commit -m'' = ''-m''" by code_simp
  from context_word_bounds [of 12 "''git commit -m''"] e s show ?thesis by simp
qed

text \<open>
  C5 as stated fails on the line \<^verbatim>\<open>"git"\<close> with the cursor at 3: the word boundaries
  are 0 and 3, the slice between them is \<^verbatim>\<open>"git"\<close>, and \<^verbatim>\<open>current_word\<close> is empty.
\<close>

theorem current_word_not_slice:
  "extract_command_context ''git'' 3 =
     Inr \<lparr>command = Some ''git'', subcommand = None, args = [], current_word = [],
          word_start = 0, word_end = 3, tokens = Some [''git'']\<rparr>
   \<and> slice 0 3 ''git'' \<noteq> []"
  by code_simp

section \<open>Cache keys\<close>

lemma append_sep_eq:
  "c \<notin> set x \<Longrightarrow> c \<notin> set y \<Longrightarrow> x @ c # r = y @ c # r' \<Longrightarrow> x = y \<and> r = r'"
proof (induction x arbitrary: y)
  case Nil
  then show ?case by (cases y) auto
next
  case (Cons a x)
  then show ?case by (cases y) auto
qed

lemma sep_in_join: "ys \<noteq> [] \<Longrightarrow> CHR ''|'' \<in> set (join ''|'' (x # ys))"
  by (cases ys) auto

lemma join_inj:
  "list_all separator_free xs \<Longrightarrow> list_all separator_free ys \<Longrightarrow> xs \<noteq> [] \<Longrightarrow> ys \<noteq> [] \<Longrightarrow>
   join ''|'' xs = join ''|'' ys \<Longrightarrow> xs = ys"
proof (induction xs arbitrary: ys)
  case Nil
  then show ?case by simp
next
  case (Cons x xs)
  then obtain y ys' where ys: "ys = y # ys'" by (cases ys) auto
  show ?case
  proof (cases xs)
    case Nil
    show ?thesis
    proof (cases ys')
      case Nil
      with Cons.prems ys \<open>xs = []\<close> show ?thesis by simp
    next
      case (Cons z zs)
      then have "CHR ''|'' \<in> set (join ''|'' ys)" using ys sep_in_join by blast
      with Cons.prems \<open>xs = []\<close> show ?thesis by (simp add: separator_free_def)
    qed
  next
    case xs: (Cons x' xs')
    show ?thesis
    proof (cases ys')
      case Nil
      have "CHR ''|'' \<in> set (join ''|'' (x # xs))" using xs sep_in_join by blast
      with Cons.prems ys Nil show ?thesis by (simp add: separator_free_def)
    next
      case ys': (Cons z zs)
      from Cons.prems ys xs ys' have
        eq: "x @ CHR ''|'' # join ''|'' xs = y @ CHR ''|'' # join ''|'' ys'" by simp
      have nx: "CHR ''|'' \<notin> set x" and ny: "CHR ''|'' \<notin> set y"
        using Cons.prems ys by (simp_all add: separator_free_def)
      from append_sep_eq [OF nx ny eq] have xy: "x = y" and js: "join ''|'' xs = join ''|'' ys'"
        by blast+
      have a1: "list_all separator_free xs" using Cons.prems(1) by simp
      have a2: "list_all separator_free ys'" using Cons.prems(2) ys by simp
      have a3: "xs \<noteq> []" using xs by simp
      have a4: "ys' \<noteq> []" using ys' by simp
      have "xs = ys'" by (rule Cons.IH [OF a1 a2 a3 a4 js])
      with xy show ?thesis using ys by simp
    qed
  qed
qed

lemma or_empty_inj:
  "(case a of None \<Rightarrow> True | Some s \<Rightarrow> s \<noteq> [] \<and> separator_free s) \<Longrightarrow>
   (case b of None \<Rightarrow> True | Some s \<Rightarrow> s \<noteq> [] \<and> separator_free s) \<Longrightarrow>
   or_empty a = or_empty b \<Longrightarrow> a = b"
  by (auto simp: or_empty_def split: option.splits)

lemma or_empty_free:
  "(case a of None \<Rightarrow> True | Some s \<Rightarrow> s \<noteq> [] \<and> separator_free s) \<Longrightarrow> separator_free (or_empty a)"
  by (auto simp: or_empty_def separator_free_def split: option.splits)

text \<open>
  C7, as amended. On contexts in which neither the command, nor the subcommand, nor any
  argument holds the separator \<^verbatim>\<open>|\<close>, and in which a command or subcommand that is
  present is not empty (every token of the tokenizer is non-empty), the cache key
  determines the command, the subcommand and the arguments.
\<close>

theorem cache_key_injective:
  assumes "key_safe c1" and "key_safe c2"
    and "create_cache_key c1 = create_cache_key c2"
  shows "command c1 = command c2 \<and> subcommand c1 = subcommand c2 \<and> args c1 = args c2"
proof -
  let ?p1 = "[or_empty (command c1), or_empty (subcommand c1)] @ args c1"
  let ?p2 = "[or_empty (command c2), or_empty (subcommand c2)] @ args c2"
  have "list_all separator_free ?p1" "list_all separator_free ?p2"
    using assms(1,2) by (simp_all add: key_safe_def or_empty_free)
  moreover have "join ''|'' ?p1 = join ''|'' ?p2"
    using assms(3) by (simp add: create_cache_key_def)
  ultimately have "?p1 = ?p2" using join_inj [of ?p1 ?p2] by simp
  then have e1: "or_empty (command c1) = or_empty (command c2)"
    and e2: "or_empty (subcommand c1) = or_empty (subcommand c2)" and e3: "args c1 = args c2"
    by simp_all
  have s1: "case command c1 of None \<Rightarrow> True | Some s \<Rightarrow> s \<noteq> [] \<and> separator_free s"
    and s2: "case subcommand c1 of None \<Rightarrow> True | Some s \<Rightarrow> s \<noteq> [] \<and> separator_free s"
    using assms(1) unfolding key_safe_def by blast+
  have t1: "case command c2 of None \<Rightarrow> True | Some s \<Rightarrow> s \<noteq> [] \<and> separator_free s"
    and t2: "case subcommand c2 of None \<Rightarrow> True | Some s \<Rightarrow> s \<noteq> [] \<and> separator_free s"
    using assms(2) unfolding key_safe_def by blast+
  from or_empty_inj [OF s1 t1 e1] or_empty_inj [OF s2 t2 e2] e3 show ?thesis by blast
qed

theorem cache_key_injective_witness:
  "key_safe git_c_context \<and> key_safe git_space_context
   \<and> create_cache_key git_c_context = create_cache_key git_space_context
   \<and> command git_c_context = command git_space_context
   \<and> subcommand git_c_context = subcommand git_space_context
   \<and> args git_c_context = args git_space_context"
proof -
  have a: "key_safe git_c_context" by (simp add: key_safe_def git_c_context_def separator_free_def)
  have b: "key_safe git_space_context"
    by (simp add: key_safe_def git_space_context_def separator_free_def)
  have c: "create_cache_key git_c_context = create_cache_key git_space_context"
    by (simp add: create_cache_key_def git_c_context_def git_space_context_def)
  from cache_key_injective [OF a b c] a b c show ?thesis by simp
qed

text \<open>
  The tokenizer gives only non-empty tokens made of characters of its input, so a line
  without the separator gives a context the theorem above covers.
\<close>

lemma tokenize_loop_tokens:
  "\<forall>t \<in> set toks. t \<noteq> [] \<and> set t \<subseteq> A \<Longrightarrow> set cur \<subseteq> A \<Longrightarrow> set cs \<subseteq> A \<Longrightarrow>
   \<forall>t \<in> set (tokenize_loop cs toks cur q qc). t \<noteq> [] \<and> set t \<subseteq> A"
proof (induction cs arbitrary: toks cur q qc)
  case Nil
  then show ?case by auto
next
  case (Cons c cs)
  have cA: "c \<in> A" and csA: "set cs \<subseteq> A" using Cons.prems(3) by simp_all
  note IH = Cons.IH [OF _ _ csA]
  have push: "set (cur @ [c]) \<subseteq> A" using Cons.prems(2) cA by simp
  have flush: "cur \<noteq> [] \<Longrightarrow> \<forall>t \<in> set (toks @ [cur]). t \<noteq> [] \<and> set t \<subseteq> A"
    using Cons.prems(1,2) by simp
  have empty: "set ([] :: string) \<subseteq> A" by simp
  note a = IH [OF Cons.prems(1) Cons.prems(2)]
  note b = IH [OF Cons.prems(1) push]
  note c = IH [OF flush empty]
  show ?case by (simp add: a b c)
qed

lemma tokenize_command_line_tokens:
  assumes "t \<in> set (tokenize_command_line line)"
  shows "t \<noteq> [] \<and> set t \<subseteq> set line"
proof -
  have "\<forall>t \<in> set (tokenize_loop line [] [] False None). t \<noteq> [] \<and> set t \<subseteq> set line"
    by (rule tokenize_loop_tokens) simp_all
  with assms show ?thesis by (simp add: tokenize_command_line_def split: if_splits)
qed

text \<open>
  C7 as stated fails: the tokenizer passes the separator through. The lines \<^verbatim>\<open>"a|"\<close>
  (cursor 2) and \<^verbatim>\<open>"a |"\<close> (cursor 3) give contexts with different commands and
  subcommands and the same key \<^verbatim>\<open>a||\<close>.
\<close>

theorem cache_key_clash:
  "extract_command_context ''a|'' 2 =
     Inr \<lparr>command = Some ''a|'', subcommand = None, args = [], current_word = [],
          word_start = 0, word_end = 2, tokens = Some [''a|'']\<rparr>
   \<and> extract_command_context ''a |'' 3 =
     Inr \<lparr>command = Some ''a'', subcommand = Some ''|'', args = [], current_word = [],
          word_start = 2, word_end = 3, tokens = Some [''a'', ''|'']\<rparr>
   \<and> create_cache_key \<lparr>command = Some ''a|'', subcommand = None, args = [], current_word = [],
          word_start = 0, word_end = 2, tokens = Some [''a|'']\<rparr> = ''a||''
   \<and> create_cache_key \<lparr>command = Some ''a'', subcommand = Some ''|'', args = [], current_word = [],
          word_start = 2, word_end = 3, tokens = Some [''a'', ''|'']\<rparr> = ''a||''"
  by code_simp

section \<open>The cache manager\<close>

text \<open>
  C10. A \<^verbatim>\<open>get\<close> on a key that is present returns the stored suggestions (the empty
  list when the entry has none) and changes, in that entry, only \<^verbatim>\<open>last_used\<close> (to the
  clock reading) and \<^verbatim>\<open>hit_count\<close> (one more than before, counting from 0 when it was
  missing): suggestions, creation time and time-to-live stay, the keys of the cache and
  their order stay, every other key maps to what it mapped to, and the maximum size stays.
\<close>

theorem get_hit_frame:
  assumes "dict_get (cache m) key = Some e"
  shows "case CacheManager_get m key now of
           (r, m') \<Rightarrow>
             r = Some (case suggestions e of None \<Rightarrow> [] | Some s \<Rightarrow> s)
             \<and> max_size m' = max_size m
             \<and> keys (cache m') = keys (cache m)
             \<and> dict_get (cache m') key =
                 Some (e\<lparr>last_used := Some now,
                         hit_count := Some ((case hit_count e of None \<Rightarrow> 0 | Some n \<Rightarrow> n) + 1)\<rparr>)
             \<and> map_option suggestions (dict_get (cache m') key) = Some (suggestions e)
             \<and> map_option created (dict_get (cache m') key) = Some (created e)
             \<and> map_option ttl (dict_get (cache m') key) = Some (ttl e)
             \<and> (\<forall>k. k \<noteq> key \<longrightarrow> dict_get (cache m') k = dict_get (cache m) k)"
  using assms dict_get_Some_keys [OF assms]
  by (simp add: CacheManager_get_def Let_def keys_dict_set dict_get_dict_set)

theorem get_hit_frame_witness:
  "dict_get (cache old_manager) ''git|'' = Some old_entry
   \<and> fst (CacheManager_get old_manager ''git|'' 5) = Some [''add'']
   \<and> map_option hit_count (dict_get (cache (snd (CacheManager_get old_manager ''git|'' 5))) ''git|'')
       = Some (Some 1)"
proof -
  have hit: "dict_get (cache old_manager) ''git|'' = Some old_entry"
    by (simp add: old_manager_def dict_get_def)
  from get_hit_frame [OF hit, of 5] show ?thesis
    using hit by (auto simp: old_entry_def split: prod.splits)
qed

lemma get_ignores_age:
  "dict_get (cache m) key = Some e \<Longrightarrow>
   fst (CacheManager_get m key now) = Some (case suggestions e of None \<Rightarrow> [] | Some s \<Rightarrow> s)"
  by (simp add: CacheManager_get_def Let_def)

text \<open>
  The maintenance sweep does enforce the time-to-live: after \<^verbatim>\<open>cleanup_expired\<close> no
  entry left in the cache is expired.
\<close>

lemma set_fold_dict_del: "set (fold dict_del ks d) = {p \<in> set d. fst p \<notin> set ks}"
  by (induction ks arbitrary: d) (auto simp: dict_del_def)

lemma cleanup_expired_sweeps:
  assumes "CacheManager_cleanup_expired m f now = (m', f')" and "(k, e) \<in> set (cache m')"
  shows "\<not> expired now e"
proof
  assume ex: "expired now e"
  have c: "cache m' = fold dict_del (map fst (filter (\<lambda>(key, e). expired now e) (cache m))) (cache m)"
    using assms(1) by (auto simp: CacheManager_cleanup_expired_def Let_def split: if_splits)
  from assms(2) have "(k, e) \<in> set (cache m)"
    and "k \<notin> fst ` {p \<in> set (cache m). case p of (key, e) \<Rightarrow> expired now e}"
    unfolding c set_fold_dict_del by auto
  with ex show False by force
qed

text \<open>
  C3. The claim is that \<^verbatim>\<open>get\<close> reports a miss for an entry whose age exceeds its
  time-to-live. \<^verbatim>\<open>get\<close> never reads \<^verbatim>\<open>created\<close> or \<^verbatim>\<open>ttl\<close>: the entry created at time
  0 with a time-to-live of 3600 seconds is expired at time 7200 by the test of
  \<^verbatim>\<open>cleanup_expired\<close>, and \<^verbatim>\<open>get\<close> at time 7200 returns its suggestions.
\<close>

theorem get_returns_expired_entry:
  "dict_get (cache old_manager) ''git|'' = Some old_entry
   \<and> expired 7200 old_entry
   \<and> fst (CacheManager_get old_manager ''git|'' 7200) = Some [''add'']"
  by (simp add: old_manager_def old_entry_def dict_get_def expired_def CacheManager_get_def)

lemma set_saves:
  "writable f \<Longrightarrow> CacheManager_set m f key suggs ttl_secs t1 t2 = (m', f') \<Longrightarrow> content f' = Some (cache m')"
  by (auto simp: CacheManager_set_def CacheManager_save_cache_def Let_def)

lemma get_cached_suggestions_file:
  "cache_file (snd (get_cached_suggestions w key now)) = cache_file w"
  by (simp add: get_cached_suggestions_def get_cache_manager_def Let_def split: option.splits prod.splits)

text \<open>
  \<^verbatim>\<open>set\<close>, \<^verbatim>\<open>invalidate\<close> and \<^verbatim>\<open>clear\<close> write the cache to a writable file.
\<close>

lemma invalidate_saves:
  "writable f \<Longrightarrow> key \<in> set (keys (cache m)) \<Longrightarrow> CacheManager_invalidate m f key = (m', f') \<Longrightarrow>
   content f' = Some (cache m')"
  by (auto simp: CacheManager_invalidate_def CacheManager_save_cache_def Let_def)

lemma clear_saves:
  "writable f \<Longrightarrow> CacheManager_clear m f = (m', f') \<Longrightarrow> content f' = Some (cache m')"
  by (auto simp: CacheManager_clear_def CacheManager_save_cache_def Let_def)

text \<open>
  C8. The claim is that a hit of \<^verbatim>\<open>get\<close> leaves the cache file equal to the cache in
  memory. \<^verbatim>\<open>get\<close> never calls \<^verbatim>\<open>_save_cache\<close>: starting from a world whose file holds
  what the manager holds, a hit changes the entry in memory and leaves the file behind.
\<close>

theorem get_hit_not_saved:
  "content (cache_file saved_world) = map_option cache (cache_manager saved_world)
   \<and> fst (get_cached_suggestions saved_world ''git|'' 5) = Some [''add'']
   \<and> content (cache_file (snd (get_cached_suggestions saved_world ''git|'' 5)))
       \<noteq> map_option cache (cache_manager (snd (get_cached_suggestions saved_world ''git|'' 5)))"
  by (simp add: saved_world_def old_manager_def old_entry_def get_cached_suggestions_def
      get_cache_manager_def CacheManager_get_def dict_get_def Let_def)

text \<open>
  With a maximum of at least 1, \<^verbatim>\<open>set\<close> leaves at most that many entries, and
  an eviction keeps the last \<^verbatim>\<open>max_size\<close> entries of the stable sort by
  \<^verbatim>\<open>last_used\<close>: no dropped entry was used later than a kept one.
\<close>

lemma cleanup_cache_size:
  assumes "1 \<le> max_size m"
  shows "int (length (cache (CacheManager_cleanup_cache m))) \<le> max_size m"
  using assms by (auto simp: CacheManager_cleanup_cache_def slice_from_def)

lemma cleanup_cache_max_size: "max_size (CacheManager_cleanup_cache m) = max_size m"
  by (simp add: CacheManager_cleanup_cache_def)

lemma set_size_bound:
  assumes "1 \<le> max_size m" and "CacheManager_set m f key suggs ttl_secs t1 t2 = (m', f')"
  shows "max_size m' = max_size m \<and> int (length (cache m')) \<le> max_size m"
proof -
  define m1 where "m1 = m\<lparr>cache := dict_set key
                   \<lparr>suggestions = Some suggs, created = Some t1, last_used = Some t2,
                    hit_count = Some 0, ttl = Some ttl_secs\<rparr> (cache m)\<rparr>"
  have m': "m' = CacheManager_cleanup_cache m1"
    using assms(2) by (simp add: CacheManager_set_def Let_def m1_def)
  have "1 \<le> max_size m1" "max_size m1 = max_size m" using assms(1) by (simp_all add: m1_def)
  with cleanup_cache_size [of m1] cleanup_cache_max_size [of m1] m' show ?thesis by simp
qed

lemma sorted_split_le:
  assumes "sorted (map f xs)"
  shows "\<forall>x \<in> set (take n xs). \<forall>y \<in> set (drop n xs). f x \<le> f y"
proof -
  have "sorted (map f (take n xs) @ map f (drop n xs))"
    using assms by (simp flip: map_append)
  then show ?thesis by (auto simp: sorted_append)
qed

lemma cleanup_keeps_recent:
  assumes "1 \<le> max_size m" and "int (length (cache m)) > max_size m"
  defines "n \<equiv> length (cache m) - nat (max_size m)"
  shows "cache (CacheManager_cleanup_cache m) = drop n (sort_key last_used_key (cache m))
         \<and> length (cache (CacheManager_cleanup_cache m)) = nat (max_size m)
         \<and> (\<forall>x \<in> set (take n (sort_key last_used_key (cache m))).
              \<forall>y \<in> set (cache (CacheManager_cleanup_cache m)). last_used_key x \<le> last_used_key y)"
proof -
  have c: "cache (CacheManager_cleanup_cache m) = drop n (sort_key last_used_key (cache m))"
    using assms(1,2) unfolding n_def
    by (simp add: CacheManager_cleanup_cache_def slice_from_def nat_diff_distrib')
  have l: "length (cache (CacheManager_cleanup_cache m)) = nat (max_size m)"
    using assms(1,2) unfolding c n_def by simp
  have "sorted (map last_used_key (sort_key last_used_key (cache m)))" by simp
  from sorted_split_le [OF this, of n] c l show ?thesis by simp
qed

text \<open>
  C4. The claim is that after every \<^verbatim>\<open>set\<close> the cache holds at most \<^verbatim>\<open>max_size\<close>
  entries. With \<^verbatim>\<open>max_size = 0\<close> the slice \<^verbatim>\<open>sorted_items[-0:]\<close> is the whole list, so
  nothing is dropped: one \<^verbatim>\<open>set\<close> on the empty cache leaves one entry. (For a
  maximum of at least 1 the bound holds, see \<open>set_size_bound\<close> above.)
\<close>

theorem set_exceeds_zero_maximum:
  "max_size (fst (CacheManager_set zero_manager no_file ''git|'' [''add''] 3600 1 2)) = 0
   \<and> length (cache (fst (CacheManager_set zero_manager no_file ''git|'' [''add''] 3600 1 2))) = 1"
  by (simp add: zero_manager_def CacheManager_set_def CacheManager_cleanup_cache_def Let_def
      slice_from_def)

section \<open>Prediction and the cache\<close>

lemma warm_world_reached:
  "predict_with_context initial_world ''git '' 4 1 2 3 = Some (Inr (git_subcommands, warm_world))"
  by code_simp

text \<open>
  C1. The claim is that the list cached under a key does not depend on \<^verbatim>\<open>current_word\<close>.
  \<^verbatim>\<open>predict_rule_based\<close> filters and ranks before it calls \<^verbatim>\<open>cache_suggestions\<close>: the
  lines \<^verbatim>\<open>"git c"\<close> and \<^verbatim>\<open>"git "\<close>, both with the cursor at 4, give the same key
  \<^verbatim>\<open>git|\<close> and differ only in the word under the cursor (\<^verbatim>\<open>c\<close> and the empty word);
  in a fresh process the first caches two subcommands under the key, the second all ten.
\<close>

theorem cache_holds_filtered_list:
  "(case predict_with_context initial_world ''git c'' 4 1 2 3 of
      Some (Inr (r, w)) \<Rightarrow> cached_list w ''git|'' = Some [''commit'', ''checkout'']
    | _ \<Rightarrow> False)
   \<and> (case predict_with_context initial_world ''git '' 4 1 2 3 of
      Some (Inr (r, w)) \<Rightarrow> cached_list w ''git|'' = Some git_subcommands
    | _ \<Rightarrow> False)"
  by code_simp

text \<open>
  On a cache miss the returned list is filtered and then ranked: with a non-empty
  \<^verbatim>\<open>current_word\<close> every candidate starts with it and the exact matches come first.
\<close>

lemma filter_suggestions_prefix:
  "cw \<noteq> [] \<Longrightarrow> s \<in> set (filter_suggestions raw cw) \<Longrightarrow> startswith (lower s) (lower cw)"
  by (simp add: filter_suggestions_def)

lemma set_rank_suggestions: "set (rank_suggestions xs ctx) = set xs"
  by (auto simp: rank_suggestions_def Let_def)

lemma rank_suggestions_exact_first:
  assumes "\<forall>s \<in> set xs. startswith (lower s) (lower (current_word ctx))"
  shows "rank_suggestions xs ctx =
           filter (\<lambda>s. lower s = lower (current_word ctx)) xs
           @ filter (\<lambda>s. lower s \<noteq> lower (current_word ctx)) xs"
proof -
  have a: "filter (\<lambda>s. lower s \<noteq> lower (current_word ctx) \<and> startswith (lower s) (lower (current_word ctx))) xs
         = filter (\<lambda>s. lower s \<noteq> lower (current_word ctx)) xs"
    using assms by (intro filter_cong) auto
  have b: "filter (\<lambda>s. lower s \<noteq> lower (current_word ctx) \<and> \<not> startswith (lower s) (lower (current_word ctx))) xs = []"
    using assms by (auto simp: filter_empty_conv)
  show ?thesis by (cases "xs = []") (simp_all add: rank_suggestions_def Let_def a b)
qed

lemma miss_path_ranked:
  assumes miss: "fst (get_cached_suggestions w (create_cache_key ctx) t_get) = None"
    and res: "predict_rule_based w ctx t_get t_created t_used = Some (r, w')"
    and cw: "current_word ctx \<noteq> []"
  shows "(\<forall>s \<in> set r. startswith (lower s) (lower (current_word ctx)))
         \<and> (\<exists>exact others. r = exact @ others
               \<and> (\<forall>s \<in> set exact. lower s = lower (current_word ctx))
               \<and> (\<forall>s \<in> set others. lower s \<noteq> lower (current_word ctx)))"
proof -
  obtain c w1 where g: "get_cached_suggestions w (create_cache_key ctx) t_get = (c, w1)"
    by (cases "get_cached_suggestions w (create_cache_key ctx) t_get")
  with miss have c: "c = None" by simp
  from res g c cw obtain raw tbl where
    r: "r = rank_suggestions (filter_suggestions raw (current_word ctx)) ctx"
    by (auto simp: predict_rule_based_def Let_def split: option.splits prod.splits)
  let ?f = "filter_suggestions raw (current_word ctx)"
  have p: "\<forall>s \<in> set ?f. startswith (lower s) (lower (current_word ctx))"
    using filter_suggestions_prefix [OF cw] by blast
  have 1: "\<forall>s \<in> set r. startswith (lower s) (lower (current_word ctx))"
    using p by (simp add: r set_rank_suggestions)
  have 2: "r = filter (\<lambda>s. lower s = lower (current_word ctx)) ?f
             @ filter (\<lambda>s. lower s \<noteq> lower (current_word ctx)) ?f"
    unfolding r by (rule rank_suggestions_exact_first [OF p])
  have "\<exists>exact others. r = exact @ others
               \<and> (\<forall>s \<in> set exact. lower s = lower (current_word ctx))
               \<and> (\<forall>s \<in> set others. lower s \<noteq> lower (current_word ctx))"
    by (rule exI [of _ "filter (\<lambda>s. lower s = lower (current_word ctx)) ?f"],
        rule exI [of _ "filter (\<lambda>s. lower s \<noteq> lower (current_word ctx)) ?f"]) (use 2 in simp)
  with 1 show ?thesis by blast
qed

text \<open>
  C2. The claim is that with a non-empty \<^verbatim>\<open>current_word\<close> every returned candidate
  starts with it, also on a cache hit. On a hit \<^verbatim>\<open>predict_rule_based\<close> returns the
  cached list as it is: after \<^verbatim>\<open>"git "\<close> was completed, the line \<^verbatim>\<open>"git c"\<close> with the
  cursor at 4 has the word \<^verbatim>\<open>c\<close> under the cursor and gets all ten subcommands,
  \<^verbatim>\<open>add\<close> among them.
\<close>

theorem cache_hit_skips_filter:
  "map_option current_word (case extract_command_context ''git c'' 4 of Inr c \<Rightarrow> Some c | Inl e \<Rightarrow> None)
     = Some ''c''
   \<and> (case predict_with_context warm_world ''git c'' 4 4 5 6 of
        Some (Inr (r, w)) \<Rightarrow>
          r = git_subcommands \<and> ''add'' \<in> set r \<and> \<not> startswith (lower ''add'') (lower ''c'')
      | _ \<Rightarrow> False)"
  by code_simp

lemma get_cached_suggestions_commands:
  "commands (snd (get_cached_suggestions w key now)) = commands w"
  by (simp add: get_cached_suggestions_def get_cache_manager_def Let_def split: option.splits prod.splits)

lemma git_comm_candidates: "candidates COMMANDS git_comm_context = Some (git_comm_suggestions, COMMANDS)"
  by code_simp

lemma git_comm_rank: "rank_suggestions git_comm_suggestions git_comm_context = git_comm_suggestions"
  by code_simp

lemma git_comm_extract: "extract_command_context ''git comm'' 8 = Inr git_comm_context"
  by code_simp

lemma git_comm_key: "create_cache_key git_comm_context = ''git|comm''"
  by code_simp

text \<open>
  C6, as amended. For the line \<^verbatim>\<open>"git comm"\<close> with the cursor at 8 the extracted
  context has the subcommand \<^verbatim>\<open>comm\<close> and, the cursor being at the end of the line
  behind a character that is not white space, the empty \<^verbatim>\<open>current_word\<close>; the
  subcommands of \<^verbatim>\<open>git\<close> that start with \<^verbatim>\<open>comm\<close> are \<^verbatim>\<open>commit\<close> alone; and on
  a cache miss, with the table as written, the prediction is \<^verbatim>\<open>commit\<close> followed by
  its six flags, nothing being filtered.
\<close>

theorem git_comm_scenario:
  assumes tbl: "commands w = COMMANDS"
    and miss: "fst (get_cached_suggestions w ''git|comm'' t_get) = None"
  shows "extract_command_context ''git comm'' 8 = Inr git_comm_context
         \<and> current_word git_comm_context = []
         \<and> subcommand git_comm_context = Some ''comm''
         \<and> map_option subcommands (dict_get COMMANDS ''git'') = Some git_subcommands
         \<and> filter (\<lambda>s. startswith s ''comm'') git_subcommands = [''commit'']
         \<and> map_option (map_sum id fst) (predict_with_context w ''git comm'' 8 t_get t_created t_used)
             = Some (Inr git_comm_suggestions)"
proof -
  obtain r w1 where g: "get_cached_suggestions w ''git|comm'' t_get = (r, w1)"
    by (cases "get_cached_suggestions w ''git|comm'' t_get")
  with miss have r: "r = None" by simp
  have w1: "commands w1 = COMMANDS"
    using get_cached_suggestions_commands [of w "''git|comm''" t_get] g tbl by simp
  have cw: "current_word git_comm_context = []" by (simp add: git_comm_context_def)
  have "map_option fst (predict_rule_based w git_comm_context t_get t_created t_used)
          = Some git_comm_suggestions"
    by (simp add: predict_rule_based_def Let_def git_comm_key g r w1 git_comm_candidates cw
        git_comm_rank)
  then have p: "map_option (map_sum id fst) (predict_with_context w ''git comm'' 8 t_get t_created t_used)
             = Some (Inr git_comm_suggestions)"
    by (auto simp: predict_with_context_def git_comm_extract)
  have s: "map_option subcommands (dict_get COMMANDS ''git'') = Some git_subcommands" by code_simp
  have f: "filter (\<lambda>s. startswith s ''comm'') git_subcommands = [''commit'']" by code_simp
  have sc: "subcommand git_comm_context = Some ''comm''" by (simp add: git_comm_context_def)
  from git_comm_extract cw sc s f p show ?thesis by blast
qed

theorem git_comm_scenario_witness:
  "commands initial_world = COMMANDS
   \<and> fst (get_cached_suggestions initial_world ''git|comm'' 1) = None
   \<and> map_option (map_sum id fst) (predict_with_context initial_world ''git comm'' 8 1 2 3)
             = Some (Inr git_comm_suggestions)"
proof -
  have a: "commands initial_world = COMMANDS" by (simp add: initial_world_def)
  have b: "fst (get_cached_suggestions initial_world ''git|comm'' 1) = None" by code_simp
  from git_comm_scenario [OF a b, of 2 3] a b show ?thesis by blast
qed

text \<open>
  C6 as stated fails in a fresh process: \<^verbatim>\<open>current_word\<close> is empty, not \<^verbatim>\<open>comm\<close>,
  and the prediction has seven candidates, not one.
\<close>

theorem git_comm_not_filtered:
  "extract_command_context ''git comm'' 8 =
     Inr \<lparr>command = Some ''git'', subcommand = Some ''comm'', args = [], current_word = [],
          word_start = 4, word_end = 8, tokens = Some [''git'', ''comm'']\<rparr>
   \<and> map_option (map_sum id fst) (predict_with_context initial_world ''git comm'' 8 1 2 3)
       = Some (Inr [''commit'', ''-m'', ''--message'', ''--amend'', ''--signoff'', ''-a'', ''--all''])"
  by code_simp

section \<open>The two tokenizers\<close>

lemma shlex_whitespace_isspace: "shlex_whitespace c \<Longrightarrow> isspace c"
  by (auto simp: shlex_whitespace_def isspace_def)

lemma shlex_tokenize_agree:
  "list_all plain_char cs \<Longrightarrow>
   shlex_loop Between [] False acc cs = Inr (tokenize_loop cs acc [] False None)
   \<and> (tok \<noteq> [] \<longrightarrow> shlex_loop InWord tok False acc cs = Inr (tokenize_loop cs acc tok False None))"
proof (induction cs arbitrary: acc tok)
  case Nil
  then show ?case by simp
next
  case (Cons c cs)
  have pc: "plain_char c" and pcs: "list_all plain_char cs" using Cons.prems by simp_all
  note IH = Cons.IH [OF pcs]
  have nq: "c \<noteq> CHR 0x22" "c \<noteq> CHR 0x27" "\<not> shlex_quote c" "\<not> shlex_escape c"
    using pc by (auto simp: plain_char_def shlex_quote_def)
  show ?case
  proof (cases "shlex_whitespace c")
    case True
    then have sp: "isspace c" by (rule shlex_whitespace_isspace)
    show ?thesis using True sp nq IH by simp
  next
    case False
    then have sp: "\<not> isspace c" using pc by (simp add: plain_char_def)
    have w: "[c] \<noteq> []" "tok @ [c] \<noteq> []" by simp_all
    show ?thesis using False sp nq IH [of acc "[c]"] IH [of acc "tok @ [c]"] by simp
  qed
qed

lemma shlex_split_plain:
  "list_all plain_char s \<Longrightarrow> shlex_split s = Inr (tokenize_command_line s)"
  using shlex_tokenize_agree [of s "[]" "[]"]
  by (cases s) (simp_all add: shlex_split_def tokenize_command_line_def)


lemma shlex_loop_keeps_acc:
  "shlex_loop st tok quoted acc cs = Inr ts \<Longrightarrow> set acc \<subseteq> set ts"
proof (induction cs arbitrary: st tok quoted acc)
  case Nil
  then show ?case by (cases st) (auto split: if_splits)
next
  case (Cons c cs)
  show ?case
  proof (cases st)
    case Between
    with Cons.prems show ?thesis by (auto split: if_splits dest!: Cons.IH)
  next
    case InWord
    with Cons.prems show ?thesis by (auto split: if_splits dest!: Cons.IH)
  next
    case (InQuote q)
    with Cons.prems show ?thesis by (auto split: if_splits dest!: Cons.IH)
  next
    case (AfterEscape st')
    with Cons.prems show ?thesis by (auto simp: Let_def dest!: Cons.IH)
  qed
qed

lemma shlex_between_word:
  "shlex_loop Between [] False acc cs = shlex_loop InWord [] False acc cs"
  by (cases cs) (auto simp: shlex_escape_def shlex_quote_def)


lemma empty_token_kept:
  "shlex_loop st tok quoted (acc @ [[]]) cs = Inr ts \<Longrightarrow> [] \<in> set ts"
  using shlex_loop_keeps_acc [of st tok quoted "acc @ [[]]" cs ts] by auto

lemma readings_agree:
  "same_reading st cs \<Longrightarrow> (case st of None \<Rightarrow> True | Some q \<Rightarrow> shlex_quote q) \<Longrightarrow>
   shlex_loop (case st of None \<Rightarrow> InWord | Some q \<Rightarrow> InQuote q) tok quoted acc cs = Inr ts \<Longrightarrow>
   [] \<notin> set ts \<Longrightarrow>
   tokenize_loop cs acc tok (st \<noteq> None) st = ts"
proof (induction st cs arbitrary: tok quoted acc rule: same_reading.induct)
  case 1
  then show ?case by (auto split: if_splits)
next
  case (2 q)
  then show ?case by simp
next
  case (3 c cs)
  show ?case
  proof (cases "shlex_quote c")
    case True
    then have q: "c = CHR 0x22 \<or> c = CHR 0x27" by (auto simp: shlex_quote_def)
    have ws: "\<not> shlex_whitespace c" using True by (auto simp: shlex_quote_def shlex_whitespace_def)
    from "3.prems" True ws have
      sr: "same_reading (Some c) cs" and
      sh: "shlex_loop (InQuote c) tok quoted acc cs = Inr ts" by simp_all
    from "3.IH"(1) [OF True sr _ _ "3.prems"(4), of tok quoted acc] True sh
    have "tokenize_loop cs acc tok True (Some c) = ts" by simp
    with q show ?thesis by auto
  next
    case nq: False
    then have nq': "c \<noteq> CHR 0x22" "c \<noteq> CHR 0x27" by (auto simp: shlex_quote_def)
    from "3.prems"(1) nq have ne: "\<not> shlex_escape c" and
      sp: "isspace c \<longrightarrow> shlex_whitespace c" and sr: "same_reading None cs"
      by (simp_all split: if_splits)
    note IH = "3.IH"(2) [OF nq ne _ sr _ _ "3.prems"(4)]
    show ?thesis
    proof (cases "shlex_whitespace c")
      case True
      then have isp: "isspace c" by (auto simp: shlex_whitespace_def isspace_def)
      show ?thesis
      proof (cases "tok = []")
        case tok: True
        show ?thesis
        proof (cases quoted)
          case True
          with "3.prems"(3) tok \<open>shlex_whitespace c\<close>
          have "shlex_loop Between [] False (acc @ [[]]) cs = Inr ts" by simp
          from empty_token_kept [OF this] "3.prems"(4) show ?thesis by simp
        next
          case False
          with "3.prems"(3) tok \<open>shlex_whitespace c\<close>
          have "shlex_loop InWord [] False acc cs = Inr ts"
            by (simp add: shlex_between_word)
          with IH [of "[]" False acc] sp have "tokenize_loop cs acc [] False None = ts" by simp
          with tok isp nq' show ?thesis by simp
        qed
      next
        case tok: False
        with "3.prems"(3) \<open>shlex_whitespace c\<close>
        have "shlex_loop InWord [] False (acc @ [tok]) cs = Inr ts"
          by (simp add: shlex_between_word)
        with IH [of "[]" False "acc @ [tok]"] sp
        have "tokenize_loop cs (acc @ [tok]) [] False None = ts" by simp
        with tok isp nq' show ?thesis by simp
      qed
    next
      case False
      with sp have nsp: "\<not> isspace c" by blast
      from "3.prems"(3) False nq ne
      have "shlex_loop InWord (tok @ [c]) quoted acc cs = Inr ts" by simp
      with IH [of "tok @ [c]" quoted acc] sp
      have "tokenize_loop cs acc (tok @ [c]) False None = ts" by simp
      with nsp nq' show ?thesis by simp
    qed
  qed
next
  case (4 q c cs)
  from "4.prems"(2) have qq: "shlex_quote q" by simp
  then have q: "q = CHR 0x22 \<or> q = CHR 0x27" by (auto simp: shlex_quote_def)
  show ?case
  proof (cases "c = q")
    case True
    from "4.prems" True have sr: "same_reading None cs"
      and sh: "shlex_loop InWord tok True acc cs = Inr ts" by simp_all
    from "4.IH"(1) [OF True sr _ _ "4.prems"(4), of tok True acc] sh
    have "tokenize_loop cs acc tok False None = ts" by simp
    with True q show ?thesis by auto
  next
    case cq: False
    show ?thesis
    proof (cases "shlex_escape c \<and> q = CHR 0x22")
      case True
      then have c: "c = CHR 0x5C" and q2: "q = CHR 0x22" by (simp_all add: shlex_escape_def)
      from "4.prems"(1) cq True obtain d ds where
        cs: "cs = d # ds" and d: "d \<noteq> CHR 0x5C" "d \<noteq> CHR 0x22" and
        sr: "same_reading (Some q) ds"
        by (cases cs) auto
      from "4.prems"(3) cq True cs d q2
      have sh: "shlex_loop (InQuote q) ((tok @ [CHR 0x5C]) @ [d]) True acc ds = Inr ts"
        by (simp add: Let_def)
      from "4.IH"(2) [OF cq True cs sr _ _ "4.prems"(4), of "(tok @ [CHR 0x5C]) @ [d]" True acc] d qq sh
      have t: "tokenize_loop ds acc ((tok @ [CHR 0x5C]) @ [d]) True (Some q) = ts" by simp
      have "tokenize_loop (c # d # ds) acc tok True (Some q) = tokenize_loop ds acc ((tok @ [CHR 0x5C]) @ [d]) True (Some q)"
        using c q2 d by simp
      with t cs show ?thesis by simp
    next
      case False
      from "4.prems"(1) cq False have sr: "same_reading (Some q) cs" by (simp split: if_splits)
      from "4.prems"(3) cq False
      have sh: "shlex_loop (InQuote q) (tok @ [c]) True acc cs = Inr ts" by (auto split: if_splits)
      from "4.IH"(3) [OF cq False sr _ _ "4.prems"(4), of "tok @ [c]" True acc] qq sh
      have t: "tokenize_loop cs acc (tok @ [c]) True (Some q) = ts" by simp
      have "tokenize_loop (c # cs) acc tok True (Some q) = tokenize_loop cs acc (tok @ [c]) True (Some q)"
        using cq by simp
      with t show ?thesis by simp
    qed
  qed
qed


lemma shlex_split_same_reading:
  assumes "shlex_split s = Inr ts" and "same_reading None s" and "[] \<notin> set ts"
  shows "tokenize_command_line s = ts"
proof (cases "s = []")
  case True
  with assms(1) show ?thesis by (simp add: shlex_split_def tokenize_command_line_def)
next
  case False
  from assms(1) have "shlex_loop InWord [] False [] s = Inr ts"
    by (simp add: shlex_split_def shlex_between_word)
  from readings_agree [of None s "[]" False "[]" ts, OF assms(2) _ _ assms(3)] this
  have "tokenize_loop s [] [] False None = ts" by simp
  with False show ?thesis by (simp add: tokenize_command_line_def)
qed

lemma tokenize_no_quotes:
  "list_all (\<lambda>c. \<not> shlex_quote c) cs \<Longrightarrow> tokenize_loop cs acc tok False qc = split_loop cs acc tok"
  by (induction cs arbitrary: acc tok) (auto simp: shlex_quote_def)

lemma split_loop_spaces:
  "list_all isspace ws \<Longrightarrow> split_loop ws acc w = (if w \<noteq> [] then acc @ [w] else acc)"
  by (induction ws arbitrary: acc w) auto

lemma split_loop_append_spaces:
  "list_all isspace ws \<Longrightarrow> split_loop (xs @ ws) acc w = split_loop xs acc w"
  by (induction xs arbitrary: acc w) (auto simp: split_loop_spaces)

lemma split_loop_dropWhile: "split_loop (dropWhile isspace s) acc [] = split_loop s acc []"
  by (induction s) auto

lemma split_strip: "split (strip s) = split s"
proof -
  define s' where "s' = dropWhile isspace s"
  define ws where "ws = rev (takeWhile isspace (rev s'))"
  have "rev (takeWhile isspace (rev s') @ dropWhile isspace (rev s')) = rev (rev s')"
    by (simp only: takeWhile_dropWhile_id)
  then have "rev (dropWhile isspace (rev s')) @ rev (takeWhile isspace (rev s')) = s'"
    by (simp only: rev_append rev_rev_ident)
  then have s': "s' = strip s @ ws" unfolding strip_def ws_def s'_def by (rule sym)
  have "list_all isspace ws"
    unfolding ws_def list_all_iff by (auto dest: set_takeWhileD)
  from split_loop_append_spaces [OF this, of "strip s" "[]" "[]"] s'
  have "split_loop s' [] [] = split_loop (strip s) [] []" by simp
  then show ?thesis by (simp add: split_def s'_def split_loop_dropWhile)
qed

lemma fallback_no_quotes:
  assumes "list_all (\<lambda>c. \<not> shlex_quote c) s"
  shows "split (strip s) = tokenize_command_line s"
proof -
  have "split s = tokenize_command_line s"
    using tokenize_no_quotes [OF assms, of "[]" "[]" None]
    by (cases "s = []") (simp_all add: split_def tokenize_command_line_def)
  then show ?thesis by (simp only: split_strip)
qed

lemma parse_tokens_agree:
  assumes "agreeing s"
  shows "(case shlex_split s of Inr ts \<Rightarrow> ts | Inl e \<Rightarrow> split (strip s)) = tokenize_command_line s"
proof (cases "shlex_split s")
  case (Inl e)
  with assms show ?thesis by (simp add: agreeing_def fallback_no_quotes)
next
  case (Inr ts)
  with assms have "same_reading None s" "[] \<notin> set ts" by (simp_all add: agreeing_def)
  from shlex_split_same_reading [OF Inr this] Inr show ?thesis by simp
qed

lemma plain_same_reading: "list_all plain_char s \<Longrightarrow> same_reading None s"
  by (induction s) (auto simp: plain_char_def)

text \<open>A string without quotes, backslashes and other white space is a special case.\<close>

lemma plain_agreeing:
  assumes "list_all plain_char s"
  shows "agreeing s"
proof -
  have "[] \<notin> set (tokenize_command_line s)" using tokenize_command_line_tokens by blast
  with shlex_split_plain [OF assms] plain_same_reading [OF assms] show ?thesis
    by (simp add: agreeing_def)
qed

text \<open>
  The converse: where the condition fails, the token lists differ. The proof follows the
  two tokenizers in step up to the first character they treat differently and then
  counts: the tokenizer keeps every backslash and shlex drops one; shlex keeps every
  white-space character it does not know and the tokenizer drops one outside quotes; the
  fallback keeps every quote and the tokenizer drops the first.
\<close>

lemma tokenize_step:
  "\<exists>acc' tok' inq' qc'.
     tokenize_loop (c # cs) acc tok inq qc = tokenize_loop cs acc' tok' inq' qc'
     \<and> ((acc' = acc \<and> tok' = tok) \<or> (acc' = acc \<and> tok' = tok @ [c]) \<or> (acc' = acc @ [tok] \<and> tok' = []))"
proof -
  let ?q = "c = CHR 0x22 \<or> c = CHR 0x27"
  consider (opens) "?q" "\<not> inq" | (closes) "?q" "inq" "Some c = qc"
    | (nested) "?q" "inq" "Some c \<noteq> qc"
    | (flush) "\<not> ?q" "isspace c \<and> \<not> inq" "tok \<noteq> []"
    | (skip) "\<not> ?q" "isspace c \<and> \<not> inq" "tok = []"
    | (push) "\<not> ?q" "\<not> (isspace c \<and> \<not> inq)"
    by blast
  then show ?thesis
  proof cases
    case opens
    then have "tokenize_loop (c # cs) acc tok inq qc = tokenize_loop cs acc tok True (Some c)"
      by simp
    then show ?thesis by blast
  next
    case closes
    then have "tokenize_loop (c # cs) acc tok inq qc = tokenize_loop cs acc tok False None"
      by simp
    then show ?thesis by blast
  next
    case nested
    then have "tokenize_loop (c # cs) acc tok inq qc = tokenize_loop cs acc (tok @ [c]) inq qc"
      by simp
    then show ?thesis by blast
  next
    case flush
    then have "tokenize_loop (c # cs) acc tok inq qc = tokenize_loop cs (acc @ [tok]) [] inq qc"
      by simp
    then show ?thesis by blast
  next
    case skip
    then have "tokenize_loop (c # cs) acc tok inq qc = tokenize_loop cs acc tok inq qc"
      by simp
    then show ?thesis by blast
  next
    case push
    then have "tokenize_loop (c # cs) acc tok inq qc = tokenize_loop cs acc (tok @ [c]) inq qc"
      by auto
    then show ?thesis by blast
  qed
qed

lemma tokenize_loop_adds_nothing:
  "length (filter P (concat (tokenize_loop cs acc tok inq qc)))
     \<le> length (filter P (concat acc)) + length (filter P tok) + length (filter P cs)"
proof (induction cs arbitrary: acc tok inq qc)
  case Nil
  then show ?case by simp
next
  case (Cons c cs)
  from tokenize_step [of c cs acc tok inq qc] obtain acc' tok' inq' qc' where
    eq: "tokenize_loop (c # cs) acc tok inq qc = tokenize_loop cs acc' tok' inq' qc'" and
    st: "(acc' = acc \<and> tok' = tok) \<or> (acc' = acc \<and> tok' = tok @ [c]) \<or> (acc' = acc @ [tok] \<and> tok' = [])"
    by blast
  from st have "length (filter P (concat acc')) + length (filter P tok')
                  \<le> length (filter P (concat acc)) + length (filter P tok) + (if P c then 1 else 0)"
    by auto
  with Cons.IH [of acc' tok' inq' qc'] show ?case unfolding eq by (cases "P c") simp_all
qed


lemma tokenize_loop_keeps:
  assumes P: "\<And>c. P c \<Longrightarrow> \<not> shlex_quote c \<and> \<not> isspace c"
  shows "length (filter P (concat (tokenize_loop cs acc tok inq qc)))
           = length (filter P (concat acc)) + length (filter P tok) + length (filter P cs)"
proof (induction cs arbitrary: acc tok inq qc)
  case Nil
  then show ?case by simp
next
  case (Cons c cs)
  have nq: "\<not> P (CHR 0x22)" "\<not> P (CHR 0x27)"
    using P [of "CHR 0x22"] P [of "CHR 0x27"] by (auto simp: shlex_quote_def)
  show ?case
  proof (cases "P c")
    case True
    with P [of c] have "c \<noteq> CHR 0x22" "c \<noteq> CHR 0x27" "\<not> isspace c"
      by (auto simp: shlex_quote_def)
    with True show ?thesis by (simp add: Cons.IH)
  next
    case False
    with nq show ?thesis by (simp add: Cons.IH)
  qed
qed

lemma shlex_loop_keeps:
  assumes P: "\<And>c. P c \<Longrightarrow> \<not> shlex_whitespace c \<and> \<not> shlex_quote c \<and> \<not> shlex_escape c"
  shows "shlex_loop st tok quoted acc cs = Inr ts \<Longrightarrow> reachable st tok \<Longrightarrow>
         length (filter P (concat ts))
           = length (filter P (concat acc)) + length (filter P tok) + length (filter P cs)"
proof (induction cs arbitrary: st tok quoted acc)
  case Nil
  then show ?case by (cases st) (auto split: if_splits)
next
  case (Cons c cs)
  have nb: "\<not> P (CHR 0x5C)" using P [of "CHR 0x5C"] by (auto simp: shlex_escape_def)
  show ?case
  proof (cases st)
    case Between
    with Cons.prems P [of c] show ?thesis by (auto split: if_splits dest!: Cons.IH)
  next
    case InWord
    with Cons.prems P [of c] show ?thesis by (auto split: if_splits dest!: Cons.IH)
  next
    case (InQuote q)
    with Cons.prems P [of c] show ?thesis by (auto split: if_splits dest!: Cons.IH)
  next
    case (AfterEscape st')
    show ?thesis
    proof (cases st')
      case Between
      with AfterEscape Cons.prems show ?thesis by simp
    next
      case InWord
      with AfterEscape Cons.prems nb show ?thesis by (auto dest!: Cons.IH)
    next
      case (InQuote q)
      with AfterEscape Cons.prems nb show ?thesis
        by (auto simp: Let_def split: if_splits dest!: Cons.IH)
    next
      case (AfterEscape st'')
      with \<open>st = AfterEscape st'\<close> Cons.prems show ?thesis by simp
    qed
  qed
qed

lemma shlex_loop_backslashes:
  "shlex_loop st tok quoted acc cs = Inr ts \<Longrightarrow>
   length (filter shlex_escape (concat ts))
     \<le> length (filter shlex_escape (concat acc)) + length (filter shlex_escape tok)
       + length (filter shlex_escape cs) + pending st"
proof (induction cs arbitrary: st tok quoted acc)
  case Nil
  then show ?case by (cases st) (auto split: if_splits)
next
  case (Cons c cs)
  show ?case
  proof (cases st)
    case Between
    with Cons.prems show ?thesis by (auto split: if_splits dest!: Cons.IH)
  next
    case InWord
    with Cons.prems show ?thesis by (auto split: if_splits dest!: Cons.IH)
  next
    case (InQuote q)
    with Cons.prems show ?thesis by (auto split: if_splits dest!: Cons.IH)
  next
    case (AfterEscape st')
    with Cons.prems show ?thesis
      by (auto simp: Let_def split: if_splits lex_state.splits dest!: Cons.IH)
  qed
qed


lemma exotic_kept:
  "(isspace c \<and> \<not> shlex_whitespace c) \<Longrightarrow>
   \<not> shlex_whitespace c \<and> \<not> shlex_quote c \<and> \<not> shlex_escape c"
  by (auto simp: isspace_def shlex_quote_def shlex_escape_def)

lemma backslash_kept: "shlex_escape c \<Longrightarrow> \<not> shlex_quote c \<and> \<not> isspace c"
  by (auto simp: isspace_def shlex_quote_def shlex_escape_def)

lemma readings_differ:
  "\<not> same_reading st cs \<Longrightarrow> (case st of None \<Rightarrow> True | Some q \<Rightarrow> shlex_quote q) \<Longrightarrow>
   shlex_loop (case st of None \<Rightarrow> InWord | Some q \<Rightarrow> InQuote q) tok quoted acc cs = Inr ts \<Longrightarrow>
   [] \<notin> set ts \<Longrightarrow>
   tokenize_loop cs acc tok (st \<noteq> None) st \<noteq> ts"
proof (induction st cs arbitrary: tok quoted acc rule: same_reading.induct)
  case 1
  then show ?case by simp
next
  case (2 q)
  then show ?case by simp
next
  case (3 c cs)
  show ?case
  proof (cases "shlex_quote c")
    case True
    then have q: "c = CHR 0x22 \<or> c = CHR 0x27" by (auto simp: shlex_quote_def)
    have ws: "\<not> shlex_whitespace c" using True by (auto simp: shlex_quote_def shlex_whitespace_def)
    from "3.prems" True ws have
      sr: "\<not> same_reading (Some c) cs" and
      sh: "shlex_loop (InQuote c) tok quoted acc cs = Inr ts" by simp_all
    from "3.IH"(1) [OF True sr _ _ "3.prems"(4), of tok quoted acc] True sh
    have "tokenize_loop cs acc tok True (Some c) \<noteq> ts" by simp
    with q show ?thesis by auto
  next
    case nq: False
    then have nq': "c \<noteq> CHR 0x22" "c \<noteq> CHR 0x27" by (auto simp: shlex_quote_def)
    show ?thesis
    proof (cases "shlex_escape c")
      case True
      then have nws: "\<not> shlex_whitespace c" by (auto simp: shlex_escape_def shlex_whitespace_def)
      from "3.prems"(3) True nq nws
      have sh: "shlex_loop (AfterEscape InWord) tok quoted acc cs = Inr ts" by simp
      then obtain d ds where cs: "cs = d # ds" by (cases cs) auto
      with sh have "shlex_loop InWord (tok @ [d]) quoted acc ds = Inr ts" by simp
      from shlex_loop_backslashes [OF this]
      have le: "length (filter shlex_escape (concat ts))
                 \<le> length (filter shlex_escape (concat acc)) + length (filter shlex_escape tok)
                   + length (filter shlex_escape cs)"
        using cs by (cases "shlex_escape d") simp_all
      have "length (filter shlex_escape (concat (tokenize_loop (c # cs) acc tok False None)))
              = length (filter shlex_escape (concat acc)) + length (filter shlex_escape tok)
                + length (filter shlex_escape (c # cs))"
        by (rule tokenize_loop_keeps) (rule backslash_kept)
      with le True show ?thesis by auto
    next
      case ne: False
      show ?thesis
      proof (cases "isspace c \<and> \<not> shlex_whitespace c")
        case True
        let ?E = "\<lambda>x. isspace x \<and> \<not> shlex_whitespace x"
        from "3.prems"(3) True nq ne
        have sh: "shlex_loop InWord (tok @ [c]) quoted acc cs = Inr ts" by simp
        have "length (filter ?E (concat ts))
                = length (filter ?E (concat acc)) + length (filter ?E (tok @ [c])) + length (filter ?E cs)"
          by (rule shlex_loop_keeps [OF _ sh]) (use exotic_kept in auto)
        then have eq: "length (filter ?E (concat ts))
                = Suc (length (filter ?E (concat acc)) + length (filter ?E tok) + length (filter ?E cs))"
          using True by simp
        have "\<exists>acc' tok'. tokenize_loop (c # cs) acc tok False None = tokenize_loop cs acc' tok' False None
                \<and> length (filter ?E (concat acc')) + length (filter ?E tok')
                    = length (filter ?E (concat acc)) + length (filter ?E tok)"
        proof (cases "tok = []")
          case True
          with \<open>isspace c \<and> \<not> shlex_whitespace c\<close> nq'
          have "tokenize_loop (c # cs) acc tok False None = tokenize_loop cs acc tok False None"
            by simp
          then show ?thesis by blast
        next
          case False
          with \<open>isspace c \<and> \<not> shlex_whitespace c\<close> nq'
          have "tokenize_loop (c # cs) acc tok False None = tokenize_loop cs (acc @ [tok]) [] False None"
            by simp
          moreover have "length (filter ?E (concat (acc @ [tok]))) + length (filter ?E [])
                    = length (filter ?E (concat acc)) + length (filter ?E tok)" by simp
          ultimately show ?thesis by blast
        qed
        then obtain acc' tok' where
          t: "tokenize_loop (c # cs) acc tok False None = tokenize_loop cs acc' tok' False None"
          and n: "length (filter ?E (concat acc')) + length (filter ?E tok')
                    = length (filter ?E (concat acc)) + length (filter ?E tok)" by blast
        from tokenize_loop_adds_nothing [of ?E cs acc' tok' False None] n
        have "length (filter ?E (concat (tokenize_loop (c # cs) acc tok False None)))
                \<le> length (filter ?E (concat acc)) + length (filter ?E tok) + length (filter ?E cs)"
          unfolding t by simp
        with eq show ?thesis by auto
      next
        case False
        then have sp: "isspace c \<longrightarrow> shlex_whitespace c" by blast
        from "3.prems"(1) nq ne False have sr: "\<not> same_reading None cs" by simp
        note IH = "3.IH"(2) [OF nq ne False sr _ _ "3.prems"(4)]
        show ?thesis
        proof (cases "shlex_whitespace c")
          case True
          then have isp: "isspace c" by (auto simp: shlex_whitespace_def isspace_def)
          show ?thesis
          proof (cases "tok = []")
            case tok: True
            show ?thesis
            proof (cases quoted)
              case True
              with "3.prems"(3) tok \<open>shlex_whitespace c\<close>
              have "shlex_loop Between [] False (acc @ [[]]) cs = Inr ts" by simp
              from empty_token_kept [OF this] "3.prems"(4) show ?thesis by simp
            next
              case False
              with "3.prems"(3) tok \<open>shlex_whitespace c\<close>
              have "shlex_loop InWord [] False acc cs = Inr ts"
                by (simp add: shlex_between_word)
              with IH [of "[]" False acc] have "tokenize_loop cs acc [] False None \<noteq> ts" by simp
              with tok isp nq' show ?thesis by simp
            qed
          next
            case tok: False
            with "3.prems"(3) \<open>shlex_whitespace c\<close>
            have "shlex_loop InWord [] False (acc @ [tok]) cs = Inr ts"
              by (simp add: shlex_between_word)
            with IH [of "[]" False "acc @ [tok]"]
            have "tokenize_loop cs (acc @ [tok]) [] False None \<noteq> ts" by simp
            with tok isp nq' show ?thesis by simp
          qed
        next
          case nws: False
          with sp have nsp: "\<not> isspace c" by blast
          from "3.prems"(3) nws nq ne
          have "shlex_loop InWord (tok @ [c]) quoted acc cs = Inr ts" by simp
          with IH [of "tok @ [c]" quoted acc]
          have "tokenize_loop cs acc (tok @ [c]) False None \<noteq> ts" by simp
          with nsp nq' show ?thesis by simp
        qed
      qed
    qed
  qed
next
  case (4 q c cs)
  from "4.prems"(2) have qq: "shlex_quote q" by simp
  then have q: "q = CHR 0x22 \<or> q = CHR 0x27" by (auto simp: shlex_quote_def)
  show ?case
  proof (cases "c = q")
    case True
    from "4.prems" True have sr: "\<not> same_reading None cs"
      and sh: "shlex_loop InWord tok True acc cs = Inr ts" by simp_all
    from "4.IH"(1) [OF True sr _ _ "4.prems"(4), of tok True acc] sh
    have "tokenize_loop cs acc tok False None \<noteq> ts" by simp
    with True q show ?thesis by auto
  next
    case cq: False
    show ?thesis
    proof (cases "shlex_escape c \<and> q = CHR 0x22")
      case True
      then have c: "c = CHR 0x5C" and q2: "q = CHR 0x22" by (simp_all add: shlex_escape_def)
      from "4.prems"(3) cq True
      have sh0: "shlex_loop (AfterEscape (InQuote q)) tok True acc cs = Inr ts" by simp
      then obtain d ds where cs: "cs = d # ds" by (cases cs) auto
      show ?thesis
      proof (cases "d = CHR 0x5C \<or> d = CHR 0x22")
        case bad: True
        with sh0 cs q2 have "shlex_loop (InQuote q) (tok @ [d]) True acc ds = Inr ts"
          by (auto simp: Let_def)
        from shlex_loop_backslashes [OF this]
        have le: "length (filter shlex_escape (concat ts))
                 \<le> length (filter shlex_escape (concat acc)) + length (filter shlex_escape tok)
                   + length (filter shlex_escape cs)"
          using cs by (cases "shlex_escape d") simp_all
        have "length (filter shlex_escape (concat (tokenize_loop (c # cs) acc tok True (Some q))))
              = length (filter shlex_escape (concat acc)) + length (filter shlex_escape tok)
                + length (filter shlex_escape (c # cs))"
          by (rule tokenize_loop_keeps) (rule backslash_kept)
        with le True show ?thesis by auto
      next
        case good: False
        then have d: "d \<noteq> CHR 0x5C" "d \<noteq> CHR 0x22" by simp_all
        from "4.prems"(1) cq True cs d have sr: "\<not> same_reading (Some q) ds" by simp
        from sh0 cs d q2
        have sh: "shlex_loop (InQuote q) ((tok @ [CHR 0x5C]) @ [d]) True acc ds = Inr ts"
          by (simp add: Let_def)
        from "4.IH"(2) [OF cq True cs sr _ _ "4.prems"(4), of "(tok @ [CHR 0x5C]) @ [d]" True acc] qq sh
        have t: "tokenize_loop ds acc ((tok @ [CHR 0x5C]) @ [d]) True (Some q) \<noteq> ts" by simp
        have "tokenize_loop (c # d # ds) acc tok True (Some q) = tokenize_loop ds acc ((tok @ [CHR 0x5C]) @ [d]) True (Some q)"
          using c q2 d by simp
        with t cs show ?thesis by simp
      qed
    next
      case False
      from "4.prems"(1) cq False have sr: "\<not> same_reading (Some q) cs" by (simp split: if_splits)
      from "4.prems"(3) cq False
      have sh: "shlex_loop (InQuote q) (tok @ [c]) True acc cs = Inr ts" by (auto split: if_splits)
      from "4.IH"(3) [OF cq False sr _ _ "4.prems"(4), of "tok @ [c]" True acc] qq sh
      have t: "tokenize_loop cs acc (tok @ [c]) True (Some q) \<noteq> ts" by simp
      have "tokenize_loop (c # cs) acc tok True (Some q) = tokenize_loop cs acc (tok @ [c]) True (Some q)"
        using cq by simp
      with t show ?thesis by simp
    qed
  qed
qed


lemma split_loop_concat:
  "concat (split_loop cs acc w) = concat acc @ w @ filter (\<lambda>c. \<not> isspace c) cs"
  by (induction cs arbitrary: acc w) auto

lemma quote_not_space: "shlex_quote c \<Longrightarrow> \<not> isspace c"
  by (auto simp: shlex_quote_def isspace_def)

lemma split_quotes:
  "length (filter shlex_quote (concat (split s))) = length (filter shlex_quote s)"
proof -
  have "filter shlex_quote (filter (\<lambda>c. \<not> isspace c) s) = filter shlex_quote s"
    by (induction s) (auto dest: quote_not_space)
  then show ?thesis by (simp add: split_def split_loop_concat)
qed

lemma tokenize_loop_drops_quote:
  "\<exists>c \<in> set cs. shlex_quote c \<Longrightarrow>
   length (filter shlex_quote (concat (tokenize_loop cs acc tok False qc)))
     < length (filter shlex_quote (concat acc)) + length (filter shlex_quote tok)
       + length (filter shlex_quote cs)"
proof (induction cs arbitrary: acc tok qc)
  case Nil
  then show ?case by simp
next
  case (Cons c cs)
  show ?case
  proof (cases "shlex_quote c")
    case True
    then have "tokenize_loop (c # cs) acc tok False qc = tokenize_loop cs acc tok True (Some c)"
      by (auto simp: shlex_quote_def)
    with tokenize_loop_adds_nothing [of shlex_quote cs acc tok True "Some c"] True
    show ?thesis by simp
  next
    case False
    with Cons.prems have ex: "\<exists>c \<in> set cs. shlex_quote c" by auto
    from False have nq: "c \<noteq> CHR 0x22" "c \<noteq> CHR 0x27" by (auto simp: shlex_quote_def)
    have "\<exists>acc' tok'. tokenize_loop (c # cs) acc tok False qc = tokenize_loop cs acc' tok' False qc
            \<and> length (filter shlex_quote (concat acc')) + length (filter shlex_quote tok')
                = length (filter shlex_quote (concat acc)) + length (filter shlex_quote tok)"
    proof (cases "isspace c")
      case sp: True
      show ?thesis
      proof (cases "tok = []")
        case True
        with sp nq have "tokenize_loop (c # cs) acc tok False qc = tokenize_loop cs acc tok False qc"
          by simp
        then show ?thesis by blast
      next
        case False
        with sp nq have "tokenize_loop (c # cs) acc tok False qc = tokenize_loop cs (acc @ [tok]) [] False qc"
          by simp
        moreover have "length (filter shlex_quote (concat (acc @ [tok]))) + length (filter shlex_quote [])
                = length (filter shlex_quote (concat acc)) + length (filter shlex_quote tok)" by simp
        ultimately show ?thesis by blast
      qed
    next
      case nsp: False
      with nq have "tokenize_loop (c # cs) acc tok False qc = tokenize_loop cs acc (tok @ [c]) False qc"
        by simp
      moreover have "length (filter shlex_quote (concat acc)) + length (filter shlex_quote (tok @ [c]))
                = length (filter shlex_quote (concat acc)) + length (filter shlex_quote tok)"
        using False by simp
      ultimately show ?thesis by blast
    qed
    then obtain acc' tok' where
      t: "tokenize_loop (c # cs) acc tok False qc = tokenize_loop cs acc' tok' False qc"
      and n: "length (filter shlex_quote (concat acc')) + length (filter shlex_quote tok')
                = length (filter shlex_quote (concat acc)) + length (filter shlex_quote tok)" by blast
    from Cons.IH [OF ex, of acc' tok' qc] n False show ?thesis unfolding t by simp
  qed
qed

lemma fallback_differs:
  assumes "\<exists>c \<in> set s. shlex_quote c"
  shows "split (strip s) \<noteq> tokenize_command_line s"
proof
  assume eq: "split (strip s) = tokenize_command_line s"
  from assms have ne: "s \<noteq> []" by auto
  from tokenize_loop_drops_quote [OF assms, of "[]" "[]" None] ne
  have "length (filter shlex_quote (concat (tokenize_command_line s))) < length (filter shlex_quote s)"
    by (simp add: tokenize_command_line_def)
  moreover have "length (filter shlex_quote (concat (split (strip s)))) = length (filter shlex_quote s)"
    by (simp only: split_strip split_quotes)
  ultimately show False using eq by simp
qed

lemma parse_tokens_differ:
  assumes "\<not> agreeing s"
  shows "(case shlex_split s of Inr ts \<Rightarrow> ts | Inl e \<Rightarrow> split (strip s)) \<noteq> tokenize_command_line s"
proof (cases "shlex_split s")
  case (Inl e)
  with assms have "\<exists>c \<in> set s. shlex_quote c" by (auto simp: agreeing_def list_all_iff)
  from fallback_differs [OF this] Inl show ?thesis by simp
next
  case (Inr ts)
  show ?thesis
  proof (cases "[] \<in> set ts")
    case True
    have "[] \<notin> set (tokenize_command_line s)" using tokenize_command_line_tokens by blast
    with True Inr show ?thesis by auto
  next
    case False
    with assms Inr have nsr: "\<not> same_reading None s" by (simp add: agreeing_def)
    then have ne: "s \<noteq> []" by auto
    from Inr have "shlex_loop InWord [] False [] s = Inr ts"
      by (simp add: shlex_split_def shlex_between_word)
    from readings_differ [of None s "[]" False "[]" ts, OF nsr _ _ False] this
    have "tokenize_loop s [] [] False None \<noteq> ts" by simp
    with ne Inr show ?thesis by (simp add: tokenize_command_line_def)
  qed
qed

lemma tokens_of_triple:
  assumes "(if (ts :: string list) = [] then None else Some (ts ! 0)) = (if us \<noteq> [] then Some (us ! 0) else None)"
    and "(if ts = [] then None else if length ts > 1 then Some (ts ! 1) else None)
           = (if length us > 1 then Some (us ! 1) else None)"
    and "(if ts = [] then [] else if length ts > 2 then slice_from 2 ts else [])
           = (if length us > 2 then slice_from 2 us else [])"
  shows "ts = us"
proof -
  have shape: "\<And>xs :: string list. xs = [] \<or> (\<exists>a. xs = [a]) \<or> (\<exists>a b. xs = [a, b])
                 \<or> (\<exists>a b c r. xs = a # b # c # r)"
    by (metis list.exhaust)
  from shape [of ts] shape [of us] assms show ?thesis
    by (auto simp: slice_from_def split: if_splits)
qed


text \<open>
  C9, as amended. For every line and every cursor between 0 and the length of the line,
  \<^verbatim>\<open>parse_context\<close> and \<^verbatim>\<open>extract_command_context\<close> compute the same command, the
  same subcommand and the same arguments exactly when the line up to the cursor is of
  one of two kinds. Either \<^verbatim>\<open>shlex.split\<close> succeeds on it and returns no empty token,
  and it has every quote closed, no backslash outside quotes, no backslash in front of a
  backslash or a double quote inside double quotes, and outside quotes no white space
  other than space, tab, CR and LF. Or \<^verbatim>\<open>shlex.split\<close> raises on it and it has no
  quote character (the fallback then splits as the tokenizer does).
\<close>

theorem parse_paths_agree:
  assumes lo: "0 \<le> cursor_pos" and hi: "cursor_pos \<le> int (length line)"
  shows "\<exists>ctx. extract_command_context line cursor_pos = Inr ctx
           \<and> ((p_command (parse_context line cursor_pos) = command ctx
                \<and> p_subcommand (parse_context line cursor_pos) = subcommand ctx
                \<and> p_args (parse_context line cursor_pos) = args ctx)
               \<longleftrightarrow> agreeing (slice_to cursor_pos line))"
proof (cases "line = []")
  case True
  then show ?thesis
    by (simp add: extract_command_context_def parse_context_def slice_to_def shlex_split_def
        agreeing_def)
next
  case False
  define s where "s = slice_to cursor_pos line"
  define us where "us = tokenize_command_line s"
  define ts where "ts = (case shlex_split s of Inr ts \<Rightarrow> ts | Inl e \<Rightarrow> split (strip s))"
  from extract_shape [OF False lo hi] obtain ctx where
    e: "extract_command_context line cursor_pos = Inr ctx"
    and f: "command ctx = (if us \<noteq> [] then Some (us ! 0) else None)"
       "subcommand ctx = (if length us > 1 then Some (us ! 1) else None)"
       "args ctx = (if length us > 2 then slice_from 2 us else [])"
    unfolding us_def s_def by fastforce
  have p: "p_command (parse_context line cursor_pos) = (if ts = [] then None else Some (ts ! 0))"
    "p_subcommand (parse_context line cursor_pos)
       = (if ts = [] then None else if length ts > 1 then Some (ts ! 1) else None)"
    "p_args (parse_context line cursor_pos)
       = (if ts = [] then [] else if length ts > 2 then slice_from 2 ts else [])"
    unfolding ts_def s_def by (simp_all add: parse_context_def Let_def)
  have "(p_command (parse_context line cursor_pos) = command ctx
          \<and> p_subcommand (parse_context line cursor_pos) = subcommand ctx
          \<and> p_args (parse_context line cursor_pos) = args ctx) \<longleftrightarrow> agreeing s"
  proof
    assume same: "p_command (parse_context line cursor_pos) = command ctx
          \<and> p_subcommand (parse_context line cursor_pos) = subcommand ctx
          \<and> p_args (parse_context line cursor_pos) = args ctx"
    have "ts = us"
      by (rule tokens_of_triple) (use same p f in simp_all)
    with parse_tokens_differ [of s] show "agreeing s" unfolding ts_def us_def by blast
  next
    assume "agreeing s"
    from parse_tokens_agree [OF this] have "ts = us" by (simp add: ts_def us_def)
    with p f show "p_command (parse_context line cursor_pos) = command ctx
          \<and> p_subcommand (parse_context line cursor_pos) = subcommand ctx
          \<and> p_args (parse_context line cursor_pos) = args ctx"
      by (cases "us = []") simp_all
  qed
  with e show ?thesis unfolding s_def by blast
qed

theorem parse_paths_agree_witness:
  "(0::int) \<le> 19 \<and> 19 \<le> int (length ''git commit -m \"a b\"'')
   \<and> agreeing (slice_to 19 ''git commit -m \"a b\"'')
   \<and> p_command (parse_context ''git commit -m \"a b\"'' 19) = Some ''git''
   \<and> p_subcommand (parse_context ''git commit -m \"a b\"'' 19) = Some ''commit''
   \<and> p_args (parse_context ''git commit -m \"a b\"'' 19) = [''-m'', ''a b'']"
proof -
  have ag: "agreeing (slice_to 19 ''git commit -m \"a b\"'')" by code_simp
  have e: "extract_command_context ''git commit -m \"a b\"'' 19 =
       Inr \<lparr>command = Some ''git'', subcommand = Some ''commit'', args = [''-m'', ''a b''],
            current_word = [], word_start = 17, word_end = 19,
            tokens = Some [''git'', ''commit'', ''-m'', ''a b'']\<rparr>"
    by code_simp
  from parse_paths_agree [of 19 "''git commit -m \"a b\"''"] e ag show ?thesis by simp
qed

text \<open>The fallback agrees with the tokenizer on a line that ends in a backslash.\<close>

lemma fallback_paths_agree:
  "shlex_split [CHR ''l'', CHR ''s'', CHR '' '', CHR ''a'', CHR 0x5C] = Inl ValueError
   \<and> agreeing [CHR ''l'', CHR ''s'', CHR '' '', CHR ''a'', CHR 0x5C]
   \<and> parse_context [CHR ''l'', CHR ''s'', CHR '' '', CHR ''a'', CHR 0x5C] 5
       = \<lparr>p_command = Some ''ls'', p_subcommand = Some [CHR ''a'', CHR 0x5C], p_args = []\<rparr>
   \<and> tokenize_command_line [CHR ''l'', CHR ''s'', CHR '' '', CHR ''a'', CHR 0x5C]
       = [''ls'', [CHR ''a'', CHR 0x5C]]"
  by code_simp

text \<open>
  C9 as stated fails on the line \<^verbatim>\<open>git "com\<close> with the cursor at 8: shlex raises on
  the open quote, the fallback splits on white space and keeps the quote in the
  subcommand, and the tokenizer of \<^verbatim>\<open>extract_command_context\<close> drops it.
\<close>

theorem parse_paths_differ:
  "extract_command_context ''git \"com'' 8 =
     Inr \<lparr>command = Some ''git'', subcommand = Some ''com'', args = [], current_word = [],
          word_start = 4, word_end = 8, tokens = Some [''git'', ''com'']\<rparr>
   \<and> parse_context ''git \"com'' 8 =
       \<lparr>p_command = Some ''git'', p_subcommand = Some ''\"com'', p_args = []\<rparr>
   \<and> ''com'' \<noteq> ''\"com''"
  by code_simp

text \<open>
  The tokenizers also differ on a backslash outside quotes, on an empty quoted word, on
  white space that shlex does not know (here a vertical tab) and on an escaped double
  quote inside double quotes.
\<close>

lemma tokenizers_differ_more:
  "tokenize_command_line [CHR ''a'', CHR 0x5C, CHR '' '', CHR ''b''] = [[CHR ''a'', CHR 0x5C], ''b'']
   \<and> shlex_split [CHR ''a'', CHR 0x5C, CHR '' '', CHR ''b''] = Inr [''a b'']
   \<and> tokenize_command_line ''a \"\"'' = [''a''] \<and> shlex_split ''a \"\"'' = Inr [''a'', []]
   \<and> tokenize_command_line [CHR ''a'', CHR 0x0B, CHR ''b''] = [''a'', ''b'']
   \<and> shlex_split [CHR ''a'', CHR 0x0B, CHR ''b''] = Inr [[CHR ''a'', CHR 0x0B, CHR ''b'']]
   \<and> tokenize_command_line [CHR 0x22, CHR ''a'', CHR 0x5C, CHR 0x22, CHR ''b'', CHR 0x22]
       = [[CHR ''a'', CHR 0x5C, CHR ''b'']]
   \<and> shlex_split [CHR 0x22, CHR ''a'', CHR 0x5C, CHR 0x22, CHR ''b'', CHR 0x22]
       = Inr [[CHR ''a'', CHR 0x22, CHR ''b'']]"
  by code_simp

end
